theory Spec2Isabelle
  imports Complex_Main
begin

section \<open>Data model of the notebook \<^verbatim>\<open>graph-gen/nyc/segmentize.ipynb\<close>\<close>

text \<open>
  The notebook is a linear sequence of calls on geopandas tables. A table is modelled as
  pandas has it: column labels, and rows that each carry their index label and their
  cells. Coordinates are exact rationals (the idealisation of the floats of the
  library). The geometry column of a table shares one coordinate reference system.
\<close>

type_synonym pt = "rat \<times> rat"

datatype geom =
    Point pt
  | LineString "pt list"
  | MultiPoint "pt list"
  | Polygon "pt list"
  | GeomNone

datatype crs = EPSG nat

datatype cell = GeoV geom | StrV string | IntV int | NumV rat | NaN

text \<open>A pandas column label: a string, or an integer (the unnamed column \<open>0\<close> of a
  table built from an unnamed series).\<close>

datatype label = Name string | Pos nat

datatype error = FileNotFound | AttributeError | KeyError | ValueError | IndexError

record frame =
  columns :: "label list"
  entries :: "(nat \<times> cell list) list"
  crs :: "crs option"

text \<open>A GeoSeries: index labels with one geometry each. The index is a plain label, or
  a pair after \<open>explode(index_parts=True)\<close>.\<close>

record 'i series =
  items :: "('i \<times> geom) list"
  scrs :: "crs option"

definition index :: "frame \<Rightarrow> nat list" where
  "index f = map fst (entries f)"

definition rows :: "frame \<Rightarrow> cell list list" where
  "rows f = map snd (entries f)"

definition bnd :: "error + 'a \<Rightarrow> ('a \<Rightarrow> error + 'b) \<Rightarrow> error + 'b" where
  "bnd m k = (case m of Inl e \<Rightarrow> Inl e | Inr x \<Rightarrow> k x)"

subsection \<open>Input files\<close>

text \<open>A geometry file: its reference system (if it declares one), its attribute fields
  and its features. A feature lacking a field reads as a missing value.\<close>

record feature =
  properties :: "(string \<times> cell) list"
  geometry :: geom

record geofile =
  file_crs :: "crs option"
  field_names :: "string list"
  features :: "feature list"

definition prop_value :: "feature \<Rightarrow> string \<Rightarrow> cell" where
  "prop_value ft k = (case map_of (properties ft) k of None \<Rightarrow> NaN | Some v \<Rightarrow> v)"

definition feature_row :: "string list \<Rightarrow> feature \<Rightarrow> cell list" where
  "feature_row fs ft = map (prop_value ft) fs @ [GeoV (geometry ft)]"

text \<open>\<open>gpd.read_file(path)\<close>: one row per feature under the default index
  \<open>0..n-1\<close>, the attribute columns followed by the column \<open>geometry\<close>.\<close>

definition read_file :: "(string \<Rightarrow> geofile option) \<Rightarrow> string \<Rightarrow> error + frame" where
  "read_file fs path =
     (case fs path of
        None \<Rightarrow> Inl FileNotFound
      | Some fl \<Rightarrow> Inr \<lparr> columns = map Name (field_names fl) @ [Name ''geometry''],
                       entries = zip [0..<length (features fl)]
                                     (map (feature_row (field_names fl)) (features fl)),
                       crs = file_crs fl \<rparr>)"

subsection \<open>Table operations of pandas\<close>

fun pos_of :: "'a \<Rightarrow> 'a list \<Rightarrow> nat option" where
  "pos_of x [] = None"
| "pos_of x (y # ys) = (if x = y then Some 0 else map_option Suc (pos_of x ys))"

definition cell_at :: "cell list \<Rightarrow> nat \<Rightarrow> cell" where
  "cell_at r k = (if k < length r then r ! k else NaN)"

definition cell_geom :: "cell \<Rightarrow> geom" where
  "cell_geom c = (case c of GeoV g \<Rightarrow> g | _ \<Rightarrow> GeomNone)"

text \<open>\<open>f[f.c == v]\<close>: the rows whose column \<open>c\<close> holds the string \<open>v\<close>;
  attribute access to a column that does not exist raises.\<close>

definition select_eq :: "frame \<Rightarrow> string \<Rightarrow> string \<Rightarrow> error + frame" where
  "select_eq f c v =
     (case pos_of (Name c) (columns f) of
        None \<Rightarrow> Inl AttributeError
      | Some k \<Rightarrow> Inr (f\<lparr>entries := filter (\<lambda>(i, r). cell_at r k = StrV v) (entries f)\<rparr>))"

text \<open>\<open>f[lab] = values\<close> for values taken from the table itself (so that both
  sides carry the same index and pandas assigns position by position): an existing
  column is overwritten in place, a new one is appended.\<close>

definition set_column :: "label \<Rightarrow> cell list \<Rightarrow> frame \<Rightarrow> frame" where
  "set_column lab vals f =
     (case pos_of lab (columns f) of
        None \<Rightarrow> f\<lparr>columns := columns f @ [lab],
                   entries := map (\<lambda>((i, r), v). (i, r @ [v])) (zip (entries f) vals)\<rparr>
      | Some k \<Rightarrow> f\<lparr>entries := map (\<lambda>((i, r), v). (i, r[k := v])) (zip (entries f) vals)\<rparr>)"

text \<open>\<open>f.iloc[:, k]\<close> and \<open>f.columns[k]\<close> raise out of range.\<close>

definition iloc_col :: "frame \<Rightarrow> nat \<Rightarrow> error + cell list" where
  "iloc_col f k =
     (if k < length (columns f) then Inr (map (\<lambda>(i, r). cell_at r k) (entries f))
      else Inl IndexError)"

definition column_label :: "frame \<Rightarrow> nat \<Rightarrow> error + label" where
  "column_label f k = (if k < length (columns f) then Inr (columns f ! k) else Inl IndexError)"

definition keep :: "bool list \<Rightarrow> 'a list \<Rightarrow> 'a list" where
  "keep bs xs = map snd (filter fst (zip bs xs))"

text \<open>\<open>f.drop(columns=labs)\<close>: every label must exist; all columns carrying one of
  the labels go.\<close>

definition drop_columns :: "label list \<Rightarrow> frame \<Rightarrow> error + frame" where
  "drop_columns labs f =
     (if \<exists>l \<in> set labs. l \<notin> set (columns f) then Inl KeyError
      else let bs = map (\<lambda>c. c \<notin> set labs) (columns f)
           in Inr (f\<lparr>columns := keep bs (columns f),
                     entries := map (\<lambda>(i, r). (i, keep bs r)) (entries f)\<rparr>))"

fun digits :: "nat \<Rightarrow> string" where
  "digits n = (if n < 10 then [char_of (48 + n)] else digits (n div 10) @ [char_of (48 + n mod 10)])"

definition label_str :: "label \<Rightarrow> string" where
  "label_str l = (case l of Name s \<Rightarrow> s | Pos n \<Rightarrow> digits n)"

text \<open>Overlapping column names of a join get the suffix of their side.\<close>

definition suffixed :: "string \<Rightarrow> label list \<Rightarrow> label list \<Rightarrow> label list" where
  "suffixed sfx other cs = map (\<lambda>c. if c \<in> set other then Name (label_str c @ sfx) else c) cs"

text \<open>\<open>left.merge(right, left_on=lab, right_index=True)\<close>: the inner join of the
  left column \<open>lab\<close> with the index of the right table. The order of the left rows is
  kept, a left row is repeated for every right row it matches and dropped when it
  matches none; the result carries the left row's index label.\<close>

definition merge :: "frame \<Rightarrow> frame \<Rightarrow> label \<Rightarrow> error + frame" where
  "merge left right lab =
     (case pos_of lab (columns left) of
        None \<Rightarrow> Inl KeyError
      | Some k \<Rightarrow>
          Inr \<lparr> columns = suffixed ''_x'' (columns right) (columns left)
                           @ suffixed ''_y'' (columns left) (columns right),
                entries = concat (map (\<lambda>(li, lr).
                             map (\<lambda>(ri, rr). (li, lr @ rr))
                                 (filter (\<lambda>(ri, rr). cell_at lr k = IntV (int ri)) (entries right)))
                           (entries left)),
                crs = crs left \<rparr>)"

text \<open>\<open>f.to_csv(path)\<close> with its defaults: a header line, then one line per row
  that starts with the row's index label. How a cell prints is left to the library.\<close>

definition to_csv :: "(cell \<Rightarrow> string) \<Rightarrow> frame \<Rightarrow> string list list" where
  "to_csv render f =
     ([] # map label_str (columns f))
     # map (\<lambda>(i, r). digits i # map render r) (entries f)"

subsection \<open>Geometry operations of the library\<close>

text \<open>
  The notebook delegates every geometric computation to geopandas and shapely. Their
  per-geometry functions are parameters of the model: what is proved of the notebook for
  an arbitrary \<open>geolib\<close> holds whatever the library computes.
\<close>

record geolib =
  lib_within :: "geom \<Rightarrow> geom \<Rightarrow> bool"
  lib_simplify :: "rat \<Rightarrow> geom \<Rightarrow> geom"
  lib_segmentize :: "rat \<Rightarrow> geom \<Rightarrow> geom"
  lib_unique_points :: "geom \<Rightarrow> pt list"
  lib_transform :: "crs \<Rightarrow> crs \<Rightarrow> pt \<Rightarrow> pt"
  lib_intersects :: "geom \<Rightarrow> geom list \<Rightarrow> bool"
  lib_intersection :: "geom \<Rightarrow> geom list \<Rightarrow> geom"
  lib_render :: "cell \<Rightarrow> string"

definition geometry_pos :: "frame \<Rightarrow> error + nat" where
  "geometry_pos f =
     (case pos_of (Name ''geometry'') (columns f) of
        None \<Rightarrow> Inl AttributeError
      | Some k \<Rightarrow> Inr k)"

definition row_geom :: "nat \<Rightarrow> cell list \<Rightarrow> geom" where
  "row_geom k r = cell_geom (cell_at r k)"

text \<open>A geometry method of a table (\<open>f.simplify(t)\<close>, \<open>f.segmentize(d)\<close>) maps
  the geometry column to a series with the table's index and reference system.\<close>

definition geoseries_map :: "(geom \<Rightarrow> geom) \<Rightarrow> frame \<Rightarrow> error + nat series" where
  "geoseries_map h f =
     bnd (geometry_pos f) (\<lambda>k.
       Inr \<lparr> items = map (\<lambda>(i, r). (i, h (row_geom k r))) (entries f), scrs = crs f \<rparr>)"

definition simplify :: "geolib \<Rightarrow> rat \<Rightarrow> frame \<Rightarrow> error + nat series" where
  "simplify lib tol f = geoseries_map (lib_simplify lib tol) f"

definition segmentize :: "geolib \<Rightarrow> rat \<Rightarrow> frame \<Rightarrow> error + nat series" where
  "segmentize lib d f = geoseries_map (lib_segmentize lib d) f"

definition extract_unique_points :: "geolib \<Rightarrow> 'i series \<Rightarrow> 'i series" where
  "extract_unique_points lib s =
     s\<lparr>items := map (\<lambda>(i, g). (i, MultiPoint (lib_unique_points lib g))) (items s)\<rparr>"

fun parts :: "geom \<Rightarrow> geom list" where
  "parts (MultiPoint ps) = map Point ps"
| "parts GeomNone = []"
| "parts g = [g]"

text \<open>\<open>s.explode(index_parts=True)\<close>: one row per part, indexed by the pair of the
  source row's label and the position of the part.\<close>

definition explode :: "nat series \<Rightarrow> (nat \<times> nat) series" where
  "explode s =
     \<lparr> items = concat (map (\<lambda>(i, g). map (\<lambda>(j, p). ((i, j), p)) (enumerate 0 (parts g)))
                            (items s)),
       scrs = scrs s \<rparr>"

text \<open>\<open>gpd.GeoDataFrame(s).reset_index()\<close> of an unnamed series with a two-level
  index: the levels become the columns \<open>level_0\<close> and \<open>level_1\<close>, the values the
  column \<open>0\<close>, under a fresh default index.\<close>

definition reset_index :: "(nat \<times> nat) series \<Rightarrow> frame" where
  "reset_index s =
     \<lparr> columns = [Name ''level_0'', Name ''level_1'', Pos 0],
       entries = zip [0..<length (items s)]
                     (map (\<lambda>((i, j), g). [IntV (int i), IntV (int j), GeoV g]) (items s)),
       crs = scrs s \<rparr>"

fun map_geom :: "(pt \<Rightarrow> pt) \<Rightarrow> geom \<Rightarrow> geom" where
  "map_geom h (Point p) = Point (h p)"
| "map_geom h (LineString ps) = LineString (map h ps)"
| "map_geom h (MultiPoint ps) = MultiPoint (map h ps)"
| "map_geom h (Polygon ps) = Polygon (map h ps)"
| "map_geom h GeomNone = GeomNone"

text \<open>\<open>f.to_crs(c)\<close>: raises on a table without reference system, returns the table
  as it is when it is in \<open>c\<close> already, and transforms the geometry column otherwise.\<close>

definition to_crs :: "geolib \<Rightarrow> crs \<Rightarrow> frame \<Rightarrow> error + frame" where
  "to_crs lib c f =
     bnd (geometry_pos f) (\<lambda>k.
       case crs f of
         None \<Rightarrow> Inl ValueError
       | Some s \<Rightarrow>
           Inr (if s = c then f
                else f\<lparr>entries := map (\<lambda>(i, r).
                                      (i, r[k := GeoV (map_geom (lib_transform lib s c) (row_geom k r))]))
                                    (entries f),
                       crs := Some c\<rparr>))"

definition drop_at :: "nat \<Rightarrow> 'a list \<Rightarrow> 'a list" where
  "drop_at k xs = take k xs @ drop (Suc k) xs"

text \<open>\<open>gpd.sjoin(left, right, op='within')\<close>: the inner join of the left rows with
  the right rows whose geometry contains theirs; the result keeps the left index and
  geometry and appends the right row's label and attributes.\<close>

definition sjoin :: "geolib \<Rightarrow> frame \<Rightarrow> frame \<Rightarrow> error + frame" where
  "sjoin lib left right =
     bnd (geometry_pos left) (\<lambda>kl.
     bnd (geometry_pos right) (\<lambda>kr.
       let rcols = Name ''index_right'' # drop_at kr (columns right)
       in Inr \<lparr> columns = suffixed ''_left'' rcols (columns left)
                            @ suffixed ''_right'' (columns left) rcols,
                 entries = concat (map (\<lambda>(li, lr).
                              map (\<lambda>(ri, rr). (li, lr @ IntV (int ri) # drop_at kr rr))
                                  (filter (\<lambda>(ri, rr). lib_within lib (row_geom kl lr) (row_geom kr rr))
                                          (entries right)))
                            (entries left)),
                 crs = crs left \<rparr>))"

text \<open>\<open>gpd.clip(gdf, mask)\<close>: the rows whose geometry intersects the mask. A point
  row is returned as it is; any other geometry is cut to the mask.\<close>

definition clip :: "geolib \<Rightarrow> frame \<Rightarrow> frame \<Rightarrow> error + frame" where
  "clip lib gdf msk =
     bnd (geometry_pos gdf) (\<lambda>k.
     bnd (geometry_pos msk) (\<lambda>km.
       let mg = map (\<lambda>(i, r). row_geom km r) (entries msk);
           sub = filter (\<lambda>(i, r). lib_intersects lib (row_geom k r) mg) (entries gdf)
       in Inr (gdf\<lparr>entries := map (\<lambda>(i, r).
                          case row_geom k r of
                            Point p \<Rightarrow> (i, r)
                          | g \<Rightarrow> (i, r[k := GeoV (lib_intersection lib g mg)])) sub\<rparr>)))"

section \<open>The notebook\<close>

text \<open>The constants of the notebook. The flag \<open>USE_SIDEWALK_WIDTHS\<close> is an argument of
  the run.\<close>

definition NOI :: string where
  "NOI = ''Greenpoint''"

definition target_crs :: crs where
  "target_crs = EPSG 2263"

text \<open>Cell 2: the boundary table is read and its reference system attribute is
  assigned.\<close>

definition load_ntas :: "(string \<Rightarrow> geofile option) \<Rightarrow> error + frame" where
  "load_ntas fs =
     bnd (read_file fs ''../data/nynta2020_24b/nynta2020.shp'') (\<lambda>nyc_ntas.
       Inr (nyc_ntas\<lparr>crs := Some target_crs\<rparr>))"

text \<open>Cell 3: the line table comes from one of two files.\<close>

definition load_streets :: "geolib \<Rightarrow> (string \<Rightarrow> geofile option) \<Rightarrow> bool \<Rightarrow> error + frame" where
  "load_streets lib fs USE_SIDEWALK_WIDTHS =
     (if \<not> USE_SIDEWALK_WIDTHS
      then bnd (read_file fs ''../data/Sidewalk.geojson'') (to_crs lib target_crs)
      else read_file fs ''../data/sidewalkwidths_nyc.geojson'')"

text \<open>Cell 8: \<open>if not USE_SIDEWALK_WIDTHS: nyc_streets['geometry'] =
  nyc_streets.simplify(10)\<close>.\<close>

definition apply_simplify :: "geolib \<Rightarrow> bool \<Rightarrow> frame \<Rightarrow> error + frame" where
  "apply_simplify lib USE_SIDEWALK_WIDTHS nyc_streets =
     (if \<not> USE_SIDEWALK_WIDTHS
      then bnd (simplify lib 10 nyc_streets) (\<lambda>s.
             Inr (set_column (Name ''geometry'') (map (\<lambda>(i, g). GeoV g) (items s)) nyc_streets))
      else Inr nyc_streets)"

text \<open>Cell 10: \<open>nyc_streets.segmentize(50).extract_unique_points().explode(index_parts=True)\<close>.\<close>

definition segmentize_points :: "geolib \<Rightarrow> frame \<Rightarrow> error + (nat \<times> nat) series" where
  "segmentize_points lib nyc_streets =
     bnd (segmentize lib 50 nyc_streets) (\<lambda>s.
       Inr (explode (extract_unique_points lib s)))"

text \<open>Cell 13: the merge on \<open>level_0\<close>, the drop of the join columns and of the line
  geometry, and the move of the point column \<open>0\<close> to the column \<open>geometry\<close>.\<close>

definition rejoin :: "frame \<Rightarrow> frame \<Rightarrow> error + frame" where
  "rejoin segmentized nyc_streets =
     bnd (merge segmentized nyc_streets (Name ''level_0'')) (\<lambda>merged.
     bnd (drop_columns [Name ''level_0'', Name ''level_1'', Name ''geometry''] merged) (\<lambda>dropped.
     bnd (iloc_col dropped 0) (\<lambda>first_col.
       let with_geometry = set_column (Name ''geometry'') first_col dropped
       in bnd (column_label with_geometry 0) (\<lambda>lab.
            drop_columns [lab] with_geometry))))"

record notebook =
  nyc_ntas :: frame
  loaded_streets :: frame
  nyc_streets :: frame
  nyc_streets_crop :: frame
  nyc_streets_crop_simplified :: "nat series"
  exploded :: "(nat \<times> nat) series"
  segmentized :: frame
  nta_crop :: frame
  segmentized_crop :: frame
  figures :: "string list"
  csv :: "string list list"

text \<open>The cells in order. \<open>loaded_streets\<close> is \<open>nyc_streets\<close> as cell 3 leaves it,
  \<open>exploded\<close> is \<open>segmentized\<close> as cell 10 leaves it; the other fields are the
  variables of the notebook at its end, the images saved and the file written. The
  plotting cells (7, 16, 17) only draw tables and save images: they change no table, and
  a failure of the drawing itself is not modelled.\<close>

definition run :: "geolib \<Rightarrow> (string \<Rightarrow> geofile option) \<Rightarrow> bool \<Rightarrow> error + notebook" where
  "run lib fs USE_SIDEWALK_WIDTHS =
     bnd (load_ntas fs) (\<lambda>ntas.
     bnd (load_streets lib fs USE_SIDEWALK_WIDTHS) (\<lambda>streets0.
     bnd (select_eq ntas ''NTAName'' NOI) (\<lambda>noi_ntas.
     bnd (sjoin lib streets0 noi_ntas) (\<lambda>crop.
     bnd (simplify lib 10 crop) (\<lambda>crop_simplified.
     bnd (segmentize lib 10 crop) (\<lambda>plotted.
     bnd (apply_simplify lib USE_SIDEWALK_WIDTHS streets0) (\<lambda>streets.
     bnd (segmentize_points lib streets) (\<lambda>points.
     bnd (rejoin (reset_index points) streets) (\<lambda>rejoined.
     bnd (to_crs lib target_crs rejoined) (\<lambda>final.
     bnd (select_eq ntas ''NTAName'' NOI) (\<lambda>boundary.
     bnd (clip lib final boundary) (\<lambda>clipped.
       Inr \<lparr> nyc_ntas = ntas,
             loaded_streets = streets0,
             nyc_streets = streets,
             nyc_streets_crop = crop,
             nyc_streets_crop_simplified = crop_simplified,
             exploded = points,
             segmentized = final,
             nta_crop = boundary,
             segmentized_crop = clipped,
             figures = [''../figures/greenpoint_sidewalks.png'',
                        ''../figures/greenpoint_sidewalks_segmentized.png'',
                        ''../figures/sidewalk_segmentization.png''],
             csv = to_csv (lib_render lib) final \<rparr>))))))))))))"

section \<open>The library operations on line geometry\<close>

text \<open>
  The notebook calls \<open>segmentize\<close>, \<open>extract_unique_points\<close> and \<open>simplify\<close>
  of shapely; the repository does not contain them. Where a property depends on what they
  return, they are modelled below, on exact rational coordinates. Lengths are compared by
  their squares, so that no square root is needed.
\<close>

definition dist2 :: "pt \<Rightarrow> pt \<Rightarrow> rat" where
  "dist2 a b = (fst b - fst a)\<^sup>2 + (snd b - snd a)\<^sup>2"

text \<open>The number of parts for a segment of squared length \<open>l2\<close>: the least \<open>n\<close>
  with \<open>l2 \<le> (n * d)\<^sup>2\<close>, that is the length divided by \<open>d\<close>, rounded up.\<close>

definition seg_count :: "rat \<Rightarrow> rat \<Rightarrow> nat" where
  "seg_count d l2 =
     (case find (\<lambda>n. l2 \<le> (of_nat n * d)\<^sup>2) [0..<Suc (nat \<lceil>l2 / d\<^sup>2\<rceil>)] of
        Some n \<Rightarrow> n
      | None \<Rightarrow> 0)"

definition interpolate :: "pt \<Rightarrow> pt \<Rightarrow> nat \<Rightarrow> nat \<Rightarrow> pt" where
  "interpolate a b n j =
     (fst a + of_nat j / of_nat n * (fst b - fst a),
      snd a + of_nat j / of_nat n * (snd b - snd a))"

text \<open>The vertices that follow \<open>a\<close> on the segment from \<open>a\<close> to \<open>b\<close>, up to \<open>b\<close>.\<close>

definition densify_segment :: "rat \<Rightarrow> pt \<Rightarrow> pt \<Rightarrow> pt list" where
  "densify_segment d a b =
     (let n = seg_count d (dist2 a b) in map (interpolate a b n) [1..<n] @ [b])"

definition densify :: "rat \<Rightarrow> pt list \<Rightarrow> pt list" where
  "densify d ps =
     (case ps of
        [] \<Rightarrow> []
      | a # qs \<Rightarrow> a # concat (map (\<lambda>(p, q). densify_segment d p q) (zip ps qs)))"

text \<open>
  Modelled from the spec: \<open>segmentize\<close>, a function of shapely that is not in the
  repository. The spec (section 4.2, glossary) has it insert additional vertices along a
  line at the spacing, so that the line is represented by more, shorter segments without
  changing its shape, and (section 8) has the resulting points no more than the spacing
  apart. The new vertices are placed as the library places them: every segment longer
  than the spacing is divided into the least number of equal parts that are no longer
  than the spacing; the vertices of the line stay.
\<close>

definition shapely_segmentize :: "rat \<Rightarrow> geom \<Rightarrow> geom" where
  "shapely_segmentize d g =
     (case g of
        LineString ps \<Rightarrow> LineString (densify d ps)
      | Polygon ps \<Rightarrow> Polygon (densify d ps)
      | _ \<Rightarrow> g)"

fun coords :: "geom \<Rightarrow> pt list" where
  "coords (Point p) = [p]"
| "coords (LineString ps) = ps"
| "coords (MultiPoint ps) = ps"
| "coords (Polygon ps) = ps"
| "coords GeomNone = []"

text \<open>
  Modelled from the spec: \<open>extract_unique_points\<close>, a function of shapely that is not
  in the repository. The spec (section 4.2) has it extract the set of unique point
  locations of a geometry: the distinct vertices, each at its first occurrence.
\<close>

definition shapely_unique_points :: "geom \<Rightarrow> pt list" where
  "shapely_unique_points g = rev (remdups (rev (coords g)))"

text \<open>The squared distance of \<open>p\<close> from the segment from \<open>a\<close> to \<open>b\<close>.\<close>

definition seg_dist2 :: "pt \<Rightarrow> pt \<Rightarrow> pt \<Rightarrow> rat" where
  "seg_dist2 p a b =
     (let l2 = dist2 a b;
          t = (fst p - fst a) * (fst b - fst a) + (snd p - snd a) * (snd b - snd a);
          c = (fst p - fst a) * (snd b - snd a) - (snd p - snd a) * (fst b - fst a)
      in if l2 = 0 \<or> t \<le> 0 then dist2 a p
         else if l2 \<le> t then dist2 b p
         else c\<^sup>2 / l2)"

text \<open>The position and squared distance of the first vertex farthest from the segment.\<close>

fun farthest :: "pt \<Rightarrow> pt \<Rightarrow> pt list \<Rightarrow> nat \<times> rat" where
  "farthest a b [] = (0, 0)"
| "farthest a b [p] = (0, seg_dist2 p a b)"
| "farthest a b (p # ps) =
     (let (k, m) = farthest a b ps; e = seg_dist2 p a b
      in if m \<le> e then (0, e) else (Suc k, m))"

function douglas_peucker :: "rat \<Rightarrow> pt list \<Rightarrow> pt list" where
  "douglas_peucker tol ps =
     (if length ps < 3 then ps
      else let k = fst (farthest (hd ps) (last ps) (butlast (tl ps)));
               m = snd (farthest (hd ps) (last ps) (butlast (tl ps)))
           in if tol\<^sup>2 < m
              then douglas_peucker tol (take (k + 2) ps) @ tl (douglas_peucker tol (drop (k + 1) ps))
              else [hd ps, last ps])"
  by pat_completeness auto
termination
proof (relation "measure (\<lambda>(tol, ps). length ps)")
  show "wf (measure (\<lambda>(tol, ps). length ps))" by simp
next
  fix tol :: rat and ps :: "pt list" and k m
  assume n: "\<not> length ps < 3"
    and k: "k = fst (farthest (hd ps) (last ps) (butlast (tl ps)))"
  have less: "qs \<noteq> [] \<Longrightarrow> fst (farthest a b qs) < length qs" for a b and qs :: "pt list"
    by (induction a b qs rule: farthest.induct) (auto simp: Let_def split: prod.splits)
  have "butlast (tl ps) \<noteq> []"
    using n by (cases ps) (auto simp: butlast_conv_take)
  then have "k < length (butlast (tl ps))"
    unfolding k by (rule less)
  then have "k + 2 < length ps" by simp
  then show "((tol, take (k + 2) ps), (tol, ps)) \<in> measure (\<lambda>(tol, ps). length ps)"
    by simp
next
  fix tol :: rat and ps :: "pt list" and k m
  assume n: "\<not> length ps < 3"
  then show "((tol, drop (k + 1) ps), (tol, ps)) \<in> measure (\<lambda>(tol, ps). length ps)"
    by simp
qed

text \<open>
  Modelled from the spec: \<open>simplify\<close>, a function of shapely that is not in the
  repository. The spec (glossary, section 1) has it reduce the number of vertices of a
  line while keeping it within the tolerance of the original shape, by a
  line-simplification algorithm such as Douglas-Peucker, which is the one modelled: the
  endpoints stay, and the vertex farthest from the chord stays, with both halves
  simplified in turn, only when it is farther from the chord than the tolerance.
\<close>

definition shapely_simplify :: "rat \<Rightarrow> geom \<Rightarrow> geom" where
  "shapely_simplify tol g =
     (case g of LineString ps \<Rightarrow> LineString (douglas_peucker tol ps) | _ \<Rightarrow> g)"

section \<open>A library instance and input files for evaluation\<close>

text \<open>The line operations as modelled above. The spatial predicates are decided on
  bounding rectangles, which is exact for the rectangular boundaries used below. The
  change of coordinates between reference systems is left as the identity: the examples
  are either in the target reference system, where the library transforms nothing, or
  evaluated for the reference system of their tables only.\<close>

definition in_bbox :: "pt \<Rightarrow> pt list \<Rightarrow> bool" where
  "in_bbox p ps \<longleftrightarrow>
     list_ex (\<lambda>q. fst q \<le> fst p) ps \<and> list_ex (\<lambda>q. fst p \<le> fst q) ps \<and>
     list_ex (\<lambda>q. snd q \<le> snd p) ps \<and> list_ex (\<lambda>q. snd p \<le> snd q) ps"

text \<open>Cells print as pandas writes them: numbers in decimal (a fraction as numerator
  and denominator), geometry as well-known text, a missing value as the empty string.\<close>

definition show_int :: "int \<Rightarrow> string" where
  "show_int i = (if i < 0 then CHR ''-'' # digits (nat (- i)) else digits (nat i))"

definition show_rat :: "rat \<Rightarrow> string" where
  "show_rat q =
     (case quotient_of q of
        (n, d) \<Rightarrow> if d = 1 then show_int n else show_int n @ ''/'' @ show_int d)"

fun wkt_coords :: "pt list \<Rightarrow> string" where
  "wkt_coords [] = []"
| "wkt_coords [p] = show_rat (fst p) @ '' '' @ show_rat (snd p)"
| "wkt_coords (p # ps) = show_rat (fst p) @ '' '' @ show_rat (snd p) @ '', '' @ wkt_coords ps"

definition wkt :: "geom \<Rightarrow> string" where
  "wkt g =
     (case g of
        Point p \<Rightarrow> ''POINT ('' @ wkt_coords [p] @ '')''
      | LineString ps \<Rightarrow> ''LINESTRING ('' @ wkt_coords ps @ '')''
      | MultiPoint ps \<Rightarrow> ''MULTIPOINT ('' @ wkt_coords ps @ '')''
      | Polygon ps \<Rightarrow> ''POLYGON (('' @ wkt_coords ps @ ''))''
      | GeomNone \<Rightarrow> [])"

definition render_cell :: "cell \<Rightarrow> string" where
  "render_cell c =
     (case c of
        GeoV g \<Rightarrow> wkt g
      | StrV s \<Rightarrow> s
      | IntV i \<Rightarrow> show_int i
      | NumV q \<Rightarrow> show_rat q
      | NaN \<Rightarrow> [])"

definition planar_lib :: geolib where
  "planar_lib =
     \<lparr> lib_within = (\<lambda>g h. coords g \<noteq> [] \<and> list_all (\<lambda>p. in_bbox p (coords h)) (coords g)),
       lib_simplify = shapely_simplify,
       lib_segmentize = shapely_segmentize,
       lib_unique_points = shapely_unique_points,
       lib_transform = (\<lambda>s c p. p),
       lib_intersects = (\<lambda>g hs. list_ex (\<lambda>h. list_ex (\<lambda>p. in_bbox p (coords h)) (coords g)) hs),
       lib_intersection = (\<lambda>g hs. MultiPoint (filter (\<lambda>p. list_ex (\<lambda>h. in_bbox p (coords h)) hs) (coords g))),
       lib_render = render_cell \<rparr>"

definition ntas_file :: geofile where
  "ntas_file =
     \<lparr> file_crs = None,
       field_names = [''NTAName''],
       features =
         [\<lparr> properties = [(''NTAName'', StrV ''Greenpoint'')],
            geometry = Polygon [(0, 0), (100, 0), (100, 100), (0, 100), (0, 0)] \<rparr>,
          \<lparr> properties = [(''NTAName'', StrV ''Williamsburg'')],
            geometry = Polygon [(0, 100), (100, 100), (100, 200), (0, 200), (0, 100)] \<rparr>] \<rparr>"

text \<open>Three straight lines of lengths 10, 60 and 120.\<close>

definition three_lines :: "feature list" where
  "three_lines =
     [\<lparr> properties = [(''width'', NumV 4)], geometry = LineString [(0, 10), (10, 10)] \<rparr>,
      \<lparr> properties = [(''width'', NumV 6)], geometry = LineString [(0, 20), (60, 20)] \<rparr>,
      \<lparr> properties = [(''width'', NumV 9)], geometry = LineString [(0, 30), (120, 30)] \<rparr>]"

definition example_fs :: "string \<Rightarrow> geofile option" where
  "example_fs path =
     (if path = ''../data/nynta2020_24b/nynta2020.shp'' then Some ntas_file
      else if path = ''../data/sidewalkwidths_nyc.geojson''
        then Some \<lparr> file_crs = Some (EPSG 2263), field_names = [''width''], features = three_lines \<rparr>
      else if path = ''../data/Sidewalk.geojson''
        then Some \<lparr> file_crs = Some (EPSG 2263), field_names = [''width''], features = three_lines \<rparr>
      else None)"

section \<open>Notions used to state the properties\<close>

text \<open>The cells of a row in the columns that are not called \<open>geometry\<close>.\<close>

definition attributes :: "frame \<Rightarrow> cell list \<Rightarrow> cell list" where
  "attributes f r = keep (map (\<lambda>c. c \<noteq> Name ''geometry'') (columns f)) r"

text \<open>A table is rectangular, carries the default index, and has string labels only.\<close>

definition wf_frame :: "frame \<Rightarrow> bool" where
  "wf_frame f \<longleftrightarrow> (\<forall>(i, r) \<in> set (entries f). length r = length (columns f))"

definition default_index :: "frame \<Rightarrow> bool" where
  "default_index f \<longleftrightarrow> index f = [0..<length (entries f)]"

definition named_columns :: "frame \<Rightarrow> bool" where
  "named_columns f \<longleftrightarrow> list_all (\<lambda>c. case c of Name s \<Rightarrow> True | Pos n \<Rightarrow> False) (columns f)"

text \<open>The row of a table under an index label.\<close>

definition row_of :: "frame \<Rightarrow> nat \<Rightarrow> cell list" where
  "row_of f i = (case map_of (entries f) i of None \<Rightarrow> [] | Some r \<Rightarrow> r)"

text \<open>The points that cell 10 derives from one geometry.\<close>

definition line_points :: "geolib \<Rightarrow> geom \<Rightarrow> pt list" where
  "line_points lib g = lib_unique_points lib (lib_segmentize lib 50 g)"

text \<open>What \<open>to_crs\<close> does to one geometry of a table in the reference system \<open>src\<close>.\<close>

definition reproject :: "geolib \<Rightarrow> crs option \<Rightarrow> crs \<Rightarrow> geom \<Rightarrow> geom" where
  "reproject lib src c g =
     (case src of
        None \<Rightarrow> g
      | Some s \<Rightarrow> if s = c then g else map_geom (lib_transform lib s c) g)"

text \<open>The exploded rows that refer back to the line with index label \<open>i\<close>, and their
  number for every line of the table.\<close>

definition rows_of_line :: "nat \<Rightarrow> (nat \<times> nat) series \<Rightarrow> ((nat \<times> nat) \<times> geom) list" where
  "rows_of_line i s = filter (\<lambda>((i', j), g). i' = i) (items s)"

definition points_per_line :: "notebook \<Rightarrow> nat list" where
  "points_per_line nb = map (\<lambda>i. length (rows_of_line i (exploded nb))) (index (nyc_streets nb))"

text \<open>A point lies on a segment, and on a line given by its vertices.\<close>

definition on_segment :: "pt \<Rightarrow> pt \<Rightarrow> pt \<Rightarrow> bool" where
  "on_segment p a b \<longleftrightarrow>
     (\<exists>t. 0 \<le> t \<and> t \<le> 1 \<and> p = (fst a + t * (fst b - fst a), snd a + t * (snd b - snd a)))"

definition on_line :: "pt \<Rightarrow> pt list \<Rightarrow> bool" where
  "on_line p vs \<longleftrightarrow> p \<in> set vs \<or> (\<exists>(a, b) \<in> set (zip vs (tl vs)). on_segment p a b)"

text \<open>Two points are no more than \<open>d\<close> apart.\<close>

definition within_spacing :: "rat \<Rightarrow> pt \<Rightarrow> pt \<Rightarrow> bool" where
  "within_spacing d a b \<longleftrightarrow> dist2 a b \<le> d\<^sup>2"

text \<open>The run of the notebook on the example files, with the flag set as the notebook
  sets it.\<close>

definition example_nb :: notebook where
  "example_nb = projr (run planar_lib example_fs True)"

text \<open>Input files in which both line files hold the same single line, bent by less
  than the simplification tolerance.\<close>

definition bent_line :: "feature list" where
  "bent_line =
     [\<lparr> properties = [(''width'', NumV 5)], geometry = LineString [(0, 10), (20, 14), (40, 10)] \<rparr>]"

definition bend_fs :: "string \<Rightarrow> geofile option" where
  "bend_fs path =
     (if path = ''../data/nynta2020_24b/nynta2020.shp'' then Some ntas_file
      else if path = ''../data/sidewalkwidths_nyc.geojson''
        then Some \<lparr> file_crs = Some (EPSG 2263), field_names = [''width''], features = bent_line \<rparr>
      else if path = ''../data/Sidewalk.geojson''
        then Some \<lparr> file_crs = Some (EPSG 2263), field_names = [''width''], features = bent_line \<rparr>
      else None)"

text \<open>Input files in which the line files are in geographic coordinates (EPSG:4326, the
  reference system of GeoJSON), with a boundary drawn around these raw coordinates, so
  that the crop to the neighbourhood holds the line.\<close>

definition wgs84_line :: "feature list" where
  "wgs84_line =
     [\<lparr> properties = [(''width'', NumV 5)],
        geometry = LineString [(- 7395 / 100, 4073 / 100), (- 7394 / 100, 4073 / 100)] \<rparr>]"

definition wgs84_ntas_file :: geofile where
  "wgs84_ntas_file =
     \<lparr> file_crs = None,
       field_names = [''NTAName''],
       features =
         [\<lparr> properties = [(''NTAName'', StrV ''Greenpoint'')],
            geometry = Polygon [(- 74, 40), (- 73, 40), (- 73, 41), (- 74, 41), (- 74, 40)] \<rparr>] \<rparr>"

definition wgs84_fs :: "string \<Rightarrow> geofile option" where
  "wgs84_fs path =
     (if path = ''../data/nynta2020_24b/nynta2020.shp'' then Some wgs84_ntas_file
      else if path = ''../data/sidewalkwidths_nyc.geojson''
        then Some \<lparr> file_crs = Some (EPSG 4326), field_names = [''width''], features = wgs84_line \<rparr>
      else if path = ''../data/Sidewalk.geojson''
        then Some \<lparr> file_crs = Some (EPSG 4326), field_names = [''width''], features = wgs84_line \<rparr>
      else None)"

text \<open>The runs of the notebook on these files.\<close>

definition bend_nb :: "bool \<Rightarrow> notebook" where
  "bend_nb u = projr (run planar_lib bend_fs u)"

text \<open>The squared length of a line of two vertices.\<close>

definition squared_length :: "geom \<Rightarrow> rat" where
  "squared_length g = (case coords g of [a, b] \<Rightarrow> dist2 a b | _ \<Rightarrow> 0)"

text \<open>
  Modelled from the spec: the marks that section 8 counts on a straight line of length
  \<open>len\<close> at spacing \<open>d\<close>, "endpoints plus each interior multiple-of-\<open>d\<close> mark,
  deduplicated", as positions along the line.
\<close>

definition interval_marks :: "nat \<Rightarrow> nat \<Rightarrow> nat list" where
  "interval_marks len d =
     remdups (0 # filter (\<lambda>x. 0 < x \<and> x < len \<and> x mod d = 0) [0..<len] @ [len])"

section \<open>Properties of the table operations\<close>

lemma bnd_Inr_iff: "bnd m k = Inr y \<longleftrightarrow> (\<exists>x. m = Inr x \<and> k x = Inr y)"
  by (cases m) (simp_all add: bnd_def)

lemma pos_of_None_iff: "pos_of x xs = None \<longleftrightarrow> x \<notin> set xs"
  by (induction xs) auto

lemma pos_of_Some: "pos_of x xs = Some k \<Longrightarrow> k < length xs \<and> xs ! k = x"
  by (induction xs arbitrary: k) (auto split: if_splits)

lemma keep_Nil [simp]: "keep [] xs = []" "keep bs [] = []"
  by (simp_all add: keep_def)

lemma keep_Cons [simp]: "keep (b # bs) (x # xs) = (if b then x # keep bs xs else keep bs xs)"
  by (simp add: keep_def)

lemma keep_append: "length bs = length xs \<Longrightarrow> keep (bs @ cs) (xs @ ys) = keep bs xs @ keep cs ys"
  by (simp add: keep_def)

lemma keep_all: "length bs = length xs \<Longrightarrow> \<forall>b \<in> set bs. b \<Longrightarrow> keep bs xs = xs"
  by (induction bs xs rule: list_induct2) auto

lemma keep_map_filter: "keep (map P xs) xs = filter P xs"
  by (induction xs) auto

lemma length_keep: "length bs = length xs \<Longrightarrow> length (keep bs xs) = length (filter id bs)"
  by (induction bs xs rule: list_induct2) auto

lemma filter_unique_key:
  "distinct (map fst xs) \<Longrightarrow> (i, r) \<in> set xs \<Longrightarrow> filter (\<lambda>(ri, rr). ri = i) xs = [(i, r)]"
proof (induction xs)
  case Nil then show ?case by simp
next
  case (Cons x xs)
  obtain j s where x: "x = (j, s)" by (cases x)
  show ?case
  proof (cases "j = i")
    case True
    with Cons.prems x have "s = r" by (auto simp: image_iff)
    moreover from Cons.prems x True have "filter (\<lambda>(ri, rr). ri = i) xs = []"
      by (auto simp: filter_empty_conv image_iff)
    ultimately show ?thesis using x True by simp
  next
    case False
    with Cons x show ?thesis by auto
  qed
qed

lemma run_Inr:
  assumes "run lib fs u = Inr nb"
  obtains ntas streets0 noi crop cs pl streets pts rejoined boundary clipped where
    "load_ntas fs = Inr ntas" "load_streets lib fs u = Inr streets0"
    "select_eq ntas ''NTAName'' NOI = Inr noi" "sjoin lib streets0 noi = Inr crop"
    "simplify lib 10 crop = Inr cs" "segmentize lib 10 crop = Inr pl"
    "apply_simplify lib u streets0 = Inr streets" "segmentize_points lib streets = Inr pts"
    "rejoin (reset_index pts) streets = Inr rejoined"
    "to_crs lib target_crs rejoined = Inr (segmentized nb)"
    "select_eq ntas ''NTAName'' NOI = Inr boundary"
    "clip lib (segmentized nb) boundary = Inr clipped"
    "nyc_ntas nb = ntas" "loaded_streets nb = streets0" "nyc_streets nb = streets"
    "exploded nb = pts" "segmentized_crop nb = clipped" "nta_crop nb = boundary"
    "csv nb = to_csv (lib_render lib) (segmentized nb)"
  using assms unfolding run_def bnd_Inr_iff by (elim exE conjE) (auto intro: that)

lemma geometry_pos_Inr: "geometry_pos f = Inr k \<longleftrightarrow> pos_of (Name ''geometry'') (columns f) = Some k"
  by (simp add: geometry_pos_def split: option.splits)

lemma enumerate_map_Point:
  "enumerate n (map h ps) = map (\<lambda>(j, p). (j, h p)) (enumerate n ps)"
  by (induction ps arbitrary: n) auto

lemma segmentize_points_items:
  assumes "segmentize_points lib f = Inr pts"
  obtains k where "geometry_pos f = Inr k"
    "items pts = concat (map (\<lambda>(i, r). map (\<lambda>(j, p). ((i, j), Point p))
                                 (enumerate 0 (line_points lib (row_geom k r)))) (entries f))"
    "scrs pts = crs f"
proof -
  from assms obtain s where s: "segmentize lib 50 f = Inr s"
    and pts: "pts = explode (extract_unique_points lib s)"
    by (auto simp: segmentize_points_def bnd_Inr_iff)
  from s obtain k where k: "geometry_pos f = Inr k"
    and s': "s = \<lparr> items = map (\<lambda>(i, r). (i, lib_segmentize lib 50 (row_geom k r))) (entries f), scrs = crs f \<rparr>"
    by (auto simp: segmentize_def geoseries_map_def bnd_Inr_iff)
  have "items pts = concat (map (\<lambda>(i, r). map (\<lambda>(j, p). ((i, j), Point p))
                                 (enumerate 0 (line_points lib (row_geom k r)))) (entries f))"
    unfolding pts s' explode_def extract_unique_points_def line_points_def
    by (simp add: comp_def case_prod_unfold enumerate_map_Point)
  moreover have "scrs pts = crs f"
    unfolding pts s' explode_def extract_unique_points_def by simp
  ultimately show ?thesis using k that by blast
qed

lemma segmentize_points_parent:
  assumes "segmentize_points lib f = Inr pts" "((i, j), g) \<in> set (items pts)"
  shows "i \<in> set (index f)" "\<exists>p. g = Point p"
proof -
  from assms(1) obtain k where
    it: "items pts = concat (map (\<lambda>(i, r). map (\<lambda>(j, p). ((i, j), Point p))
                                 (enumerate 0 (line_points lib (row_geom k r)))) (entries f))"
    by (rule segmentize_points_items)
  from assms(2) show "i \<in> set (index f)" "\<exists>p. g = Point p"
    unfolding it index_def by (force simp: image_iff)+
qed

lemma concat_map_single:
  "(\<And>x. x \<in> set xs \<Longrightarrow> F x = [G x]) \<Longrightarrow> concat (map F xs) = map G xs"
  by (induction xs) auto

lemma merge_reset_index:
  assumes d: "distinct (index right)"
    and p: "\<forall>((i, j), g) \<in> set (items pts). i \<in> set (index right)"
  shows "merge (reset_index pts) right (Name ''level_0'') =
     Inr \<lparr> columns = suffixed ''_x'' (columns right) [Name ''level_0'', Name ''level_1'', Pos 0]
                      @ suffixed ''_y'' [Name ''level_0'', Name ''level_1'', Pos 0] (columns right),
           entries = map (\<lambda>(n, ((i, j), g)). (n, [IntV (int i), IntV (int j), GeoV g] @ row_of right i))
                         (zip [0..<length (items pts)] (items pts)),
           crs = scrs pts \<rparr>"
proof -
  have one: "filter (\<lambda>(ri, rr). cell_at [IntV (int i), IntV (int j), GeoV g] 0 = IntV (int ri)) (entries right)
             = [(i, row_of right i)]"
    if "((i, j), g) \<in> set (items pts)" for i j g
  proof -
    from p that have "i \<in> set (index right)" by auto
    then obtain r where r: "(i, r) \<in> set (entries right)"
      by (auto simp: index_def)
    with d have "map_of (entries right) i = Some r"
      by (simp add: index_def)
    then have "row_of right i = r" by (simp add: row_of_def)
    moreover have "filter (\<lambda>(ri, rr). ri = i) (entries right) = [(i, r)]"
      using d r by (intro filter_unique_key) (simp_all add: index_def)
    moreover have "(\<lambda>(ri, rr). cell_at [IntV (int i), IntV (int j), GeoV g] 0 = IntV (int ri))
        = (\<lambda>(ri, rr :: cell list). ri = i)"
      by (auto simp: cell_at_def fun_eq_iff)
    ultimately show ?thesis by simp
  qed
  have "concat (map (\<lambda>(li, lr). map (\<lambda>(ri, rr). (li, lr @ rr))
            (filter (\<lambda>(ri, rr). cell_at lr 0 = IntV (int ri)) (entries right)))
          (zip [0..<length (items pts)] (map (\<lambda>((i, j), g). [IntV (int i), IntV (int j), GeoV g]) (items pts))))
      = map (\<lambda>(n, ((i, j), g)). (n, [IntV (int i), IntV (int j), GeoV g] @ row_of right i))
          (zip [0..<length (items pts)] (items pts))"
    unfolding zip_map2 map_map
    by (rule concat_map_single) (auto simp: one dest: set_zip_rightD)
  then show ?thesis
    by (simp add: merge_def reset_index_def)
qed

lemma merge_reset_index_columns:
  assumes "merge (reset_index pts) right (Name ''level_0'') = Inr m"
  shows "columns m = suffixed ''_x'' (columns right) [Name ''level_0'', Name ''level_1'', Pos 0]
                      @ suffixed ''_y'' [Name ''level_0'', Name ''level_1'', Pos 0] (columns right)"
  using assms by (auto simp: merge_def reset_index_def split: option.splits)

lemma rejoin_Inr_columns:
  assumes "rejoin (reset_index pts) right = Inr t"
  shows "Name ''level_0'' \<notin> set (columns right)" "Name ''level_1'' \<notin> set (columns right)"
    "Name ''geometry'' \<in> set (columns right)"
proof -
  from assms obtain m d where m: "merge (reset_index pts) right (Name ''level_0'') = Inr m"
    and d: "drop_columns [Name ''level_0'', Name ''level_1'', Name ''geometry''] m = Inr d"
    by (auto simp: rejoin_def bnd_Inr_iff)
  from d have in_m: "Name ''level_0'' \<in> set (columns m)" "Name ''level_1'' \<in> set (columns m)"
    "Name ''geometry'' \<in> set (columns m)"
    by (auto simp: drop_columns_def split: if_splits)
  note cm = merge_reset_index_columns [OF m]
  from in_m(1) show "Name ''level_0'' \<notin> set (columns right)"
    unfolding cm by (auto simp: suffixed_def label_str_def split: if_splits)
  from in_m(2) show "Name ''level_1'' \<notin> set (columns right)"
    unfolding cm by (auto simp: suffixed_def label_str_def split: if_splits)
  from in_m(3) show "Name ''geometry'' \<in> set (columns right)"
    unfolding cm by (auto simp: suffixed_def label_str_def split: if_splits)
qed

lemma rejoin_reset_index:
  assumes d: "distinct (index right)"
    and p: "\<forall>((i, j), g) \<in> set (items pts). i \<in> set (index right)"
    and h1: "Pos 0 \<notin> set (columns right)"
    and h2: "Name ''geometry'' \<in> set (columns right)"
    and h3: "Name ''level_0'' \<notin> set (columns right)" "Name ''level_1'' \<notin> set (columns right)"
    and wf: "wf_frame right"
  shows "rejoin (reset_index pts) right =
     Inr \<lparr> columns = filter (\<lambda>c. c \<noteq> Name ''geometry'') (columns right) @ [Name ''geometry''],
           entries = map (\<lambda>(n, ((i, j), g)). (n, attributes right (row_of right i) @ [GeoV g]))
                         (zip [0..<length (items pts)] (items pts)),
           crs = scrs pts \<rparr>"
proof -
  let ?zs = "zip [0..<length (items pts)] (items pts)"
  let ?cs = "columns right"
  let ?as = "filter (\<lambda>c. c \<noteq> Name ''geometry'') ?cs"
  have sx: "suffixed ''_x'' ?cs [Name ''level_0'', Name ''level_1'', Pos 0]
      = [Name ''level_0'', Name ''level_1'', Pos 0]"
    using h1 h3 by (simp add: suffixed_def)
  have sy: "suffixed ''_y'' [Name ''level_0'', Name ''level_1'', Pos 0] ?cs = ?cs"
    unfolding suffixed_def using h1 h3 by (intro map_idI) auto
  have m: "merge (reset_index pts) right (Name ''level_0'') =
     Inr \<lparr> columns = [Name ''level_0'', Name ''level_1'', Pos 0] @ ?cs,
           entries = map (\<lambda>(n, ((i, j), g)). (n, [IntV (int i), IntV (int j), GeoV g] @ row_of right i)) ?zs,
           crs = scrs pts \<rparr>" (is "_ = Inr ?m")
    using merge_reset_index [OF d p] by (simp add: sx sy)
  have bs: "map (\<lambda>c. c \<noteq> Name ''level_0'' \<and> c \<noteq> Name ''level_1'' \<and> c \<noteq> Name ''geometry'') ?cs
      = map (\<lambda>c. c \<noteq> Name ''geometry'') ?cs"
    using h3 by (intro map_cong) auto
  have fs: "filter (\<lambda>c. c \<noteq> Name ''level_0'' \<and> c \<noteq> Name ''level_1'' \<and> c \<noteq> Name ''geometry'') ?cs
      = ?as"
    using h3 by (intro filter_cong) auto
  have dr: "drop_columns [Name ''level_0'', Name ''level_1'', Name ''geometry''] ?m =
     Inr \<lparr> columns = Pos 0 # ?as,
           entries = map (\<lambda>(n, ((i, j), g)). (n, GeoV g # attributes right (row_of right i))) ?zs,
           crs = scrs pts \<rparr>" (is "_ = Inr ?d")
    using h2 by (simp add: drop_columns_def bs fs keep_map_filter attributes_def case_prod_unfold comp_def)
  have il: "iloc_col ?d 0 = Inr (map (\<lambda>(n, ((i, j), g)). GeoV g) ?zs)"
    by (simp add: iloc_col_def cell_at_def case_prod_unfold comp_def)
  have sc: "set_column (Name ''geometry'') (map (\<lambda>(n, ((i, j), g)). GeoV g) ?zs) ?d =
      \<lparr> columns = Pos 0 # ?as @ [Name ''geometry''],
        entries = map (\<lambda>(n, ((i, j), g)). (n, GeoV g # attributes right (row_of right i) @ [GeoV g])) ?zs,
        crs = scrs pts \<rparr>" (is "_ = ?w")
    by (simp add: set_column_def pos_of_None_iff [THEN iffD2] zip_map_map zip_same_conv_map
        case_prod_unfold comp_def)
  have cl: "column_label ?w 0 = Inr (Pos 0)"
    by (simp add: column_label_def)
  have len: "length (attributes right (row_of right i)) = length ?as"
    if "((i, j), g) \<in> set (items pts)" for i j g
  proof -
    from p that have "i \<in> set (index right)" by auto
    then obtain r where r: "(i, r) \<in> set (entries right)"
      by (auto simp: index_def)
    with d have "row_of right i = r"
      by (simp add: index_def row_of_def)
    moreover from wf r have "length r = length ?cs"
      by (auto simp: wf_frame_def)
    ultimately show ?thesis
      by (simp add: attributes_def length_keep filter_map comp_def)
  qed
  have bs2: "map (\<lambda>c. c \<noteq> Pos 0) ?as = map (\<lambda>c. True) ?as"
    using h1 by (intro map_cong) auto
  have dr2: "drop_columns [Pos 0] ?w =
     Inr \<lparr> columns = ?as @ [Name ''geometry''],
           entries = map (\<lambda>(n, ((i, j), g)). (n, attributes right (row_of right i) @ [GeoV g])) ?zs,
           crs = scrs pts \<rparr>"
  proof -
    have k1: "keep (map (\<lambda>c. True) ?as @ [True]) (?as @ [Name ''geometry'']) = ?as @ [Name ''geometry'']"
      by (rule keep_all) auto
    have k2: "keep (map (\<lambda>c. True) ?as @ [True]) (attributes right (row_of right i) @ [GeoV g])
        = attributes right (row_of right i) @ [GeoV g]"
      if "((i, j), g) \<in> set (items pts)" for i j g
      by (rule keep_all) (use len [OF that] in auto)
    have "map (\<lambda>(i, r). (i, keep (False # map (\<lambda>c. True) ?as @ [True]) r))
            (map (\<lambda>(n, ((i, j), g)). (n, GeoV g # attributes right (row_of right i) @ [GeoV g])) ?zs)
        = map (\<lambda>(n, ((i, j), g)). (n, attributes right (row_of right i) @ [GeoV g])) ?zs"
      unfolding map_map
      by (rule map_cong) (auto simp: k2 dest: set_zip_rightD)
    then show ?thesis
      by (simp add: drop_columns_def bs2 k1)
  qed
  show ?thesis
    unfolding rejoin_def by (simp only: m dr il sc cl dr2 bnd_def sum.case Let_def)
qed

lemma read_file_Inr:
  assumes "read_file fs path = Inr f"
  obtains fl where "fs path = Some fl"
    "columns f = map Name (field_names fl) @ [Name ''geometry'']"
    "entries f = zip [0..<length (features fl)] (map (feature_row (field_names fl)) (features fl))"
    "crs f = file_crs fl"
  using assms by (auto simp: read_file_def split: option.splits)

lemma read_file_ok:
  assumes "read_file fs path = Inr f"
  shows "default_index f" "wf_frame f" "named_columns f"
proof -
  from assms obtain fl where "fs path = Some fl" and
    c: "columns f = map Name (field_names fl) @ [Name ''geometry'']" and
    e: "entries f = zip [0..<length (features fl)] (map (feature_row (field_names fl)) (features fl))"
    and "crs f = file_crs fl"
    by (rule read_file_Inr)
  show "default_index f" by (simp add: default_index_def index_def e)
  show "wf_frame f"
    by (auto simp: wf_frame_def c e feature_row_def dest!: set_zip_rightD)
  show "named_columns f"
    by (simp add: named_columns_def c list_all_iff)
qed

lemma to_crs_Inr:
  assumes "to_crs lib c f = Inr f'"
  obtains k s where "geometry_pos f = Inr k" "crs f = Some s"
    "columns f' = columns f" "crs f' = Some c"
    "entries f' = (if s = c then entries f
       else map (\<lambda>(i, r). (i, r[k := GeoV (map_geom (lib_transform lib s c) (row_geom k r))])) (entries f))"
proof -
  from assms obtain k s where k: "geometry_pos f = Inr k" and s: "crs f = Some s"
    and f': "f' = (if s = c then f
                else f\<lparr>entries := map (\<lambda>(i, r).
                                      (i, r[k := GeoV (map_geom (lib_transform lib s c) (row_geom k r))]))
                                    (entries f),
                       crs := Some c\<rparr>)"
    by (auto simp: to_crs_def bnd_Inr_iff split: option.splits)
  have "columns f' = columns f" "crs f' = Some c"
    "entries f' = (if s = c then entries f
       else map (\<lambda>(i, r). (i, r[k := GeoV (map_geom (lib_transform lib s c) (row_geom k r))])) (entries f))"
    by (simp_all add: f' s)
  with k s show ?thesis by (rule that)
qed

lemma to_crs_ok:
  assumes "to_crs lib c f = Inr f'"
  shows "columns f' = columns f" "index f' = index f" "wf_frame f \<Longrightarrow> wf_frame f'"
    "default_index f \<Longrightarrow> default_index f'" "named_columns f' = named_columns f"
proof -
  from assms obtain k s where c: "columns f' = columns f" and
    e: "entries f' = (if s = c then entries f
       else map (\<lambda>(i, r). (i, r[k := GeoV (map_geom (lib_transform lib s c) (row_geom k r))])) (entries f))"
    by (rule to_crs_Inr)
  show "columns f' = columns f" by (rule c)
  show i: "index f' = index f" by (simp add: index_def e comp_def case_prod_unfold)
  show "wf_frame f'" if "wf_frame f"
    using that by (auto simp: wf_frame_def c e)
  show "default_index f'" if "default_index f"
    using that i by (simp add: default_index_def index_def) (metis length_map)
  show "named_columns f' = named_columns f" by (simp add: named_columns_def c)
qed

lemma apply_simplify_Inr:
  assumes "apply_simplify lib u f = Inr f'"
  obtains "u" "f' = f"
  | k where "\<not> u" "geometry_pos f = Inr k" "columns f' = columns f" "crs f' = crs f"
      "entries f' = map (\<lambda>(i, r). (i, r[k := GeoV (lib_simplify lib 10 (row_geom k r))])) (entries f)"
proof (cases u)
  case True
  with assms have "f' = f" by (simp add: apply_simplify_def)
  with True show ?thesis by (rule that(1))
next
  case False
  with assms obtain s where s: "simplify lib 10 f = Inr s"
    and f': "f' = set_column (Name ''geometry'') (map (\<lambda>(i, g). GeoV g) (items s)) f"
    by (auto simp: apply_simplify_def bnd_Inr_iff)
  from s obtain k where k: "geometry_pos f = Inr k"
    and s': "items s = map (\<lambda>(i, r). (i, lib_simplify lib 10 (row_geom k r))) (entries f)"
    by (auto simp: simplify_def geoseries_map_def bnd_Inr_iff)
  from k have p: "pos_of (Name ''geometry'') (columns f) = Some k"
    by (simp add: geometry_pos_Inr)
  have "columns f' = columns f" "crs f' = crs f"
    by (simp_all add: f' set_column_def p)
  moreover have "entries f' = map (\<lambda>(i, r). (i, r[k := GeoV (lib_simplify lib 10 (row_geom k r))])) (entries f)"
    by (simp add: f' set_column_def p s' zip_map2 zip_same_conv_map comp_def case_prod_unfold)
  ultimately show ?thesis using False k that(2) by blast
qed

lemma apply_simplify_ok:
  assumes "apply_simplify lib u f = Inr f'"
  shows "columns f' = columns f" "index f' = index f" "wf_frame f \<Longrightarrow> wf_frame f'"
    "default_index f \<Longrightarrow> default_index f'" "named_columns f' = named_columns f" "crs f' = crs f"
proof -
  from assms have *: "columns f' = columns f \<and> crs f' = crs f \<and>
      (\<exists>h. entries f' = map (\<lambda>(i, r). (i, h r)) (entries f) \<and> (\<forall>r. length (h r) = length r))"
  proof (cases rule: apply_simplify_Inr)
    case 1
    then show ?thesis by (auto intro!: exI [where x = "\<lambda>r. r"])
  next
    case (2 k)
    then show ?thesis
      by (auto intro!: exI [where x = "\<lambda>r. r[k := GeoV (lib_simplify lib 10 (row_geom k r))]"])
  qed
  then obtain h where e: "entries f' = map (\<lambda>(i, r). (i, h r)) (entries f)"
    and h: "\<And>r. length (h r) = length r" by blast
  from * show "columns f' = columns f" "crs f' = crs f" by simp_all
  then show "named_columns f' = named_columns f" by (simp add: named_columns_def)
  show i: "index f' = index f" by (simp add: index_def e comp_def case_prod_unfold)
  show "wf_frame f'" if "wf_frame f"
    using that * by (auto simp: wf_frame_def e h)
  show "default_index f'" if "default_index f"
    using that i by (simp add: default_index_def index_def) (metis length_map)
qed

lemma load_streets_ok:
  assumes "load_streets lib fs u = Inr f"
  shows "default_index f" "wf_frame f" "named_columns f"
proof -
  from assms obtain f0 path where f0: "read_file fs path = Inr f0"
    and f: "f = f0 \<or> to_crs lib target_crs f0 = Inr f"
    by (auto simp: load_streets_def bnd_Inr_iff split: if_splits)
  from f show "default_index f" "wf_frame f" "named_columns f"
    using read_file_ok [OF f0] by (auto simp: to_crs_ok)
qed

lemma pos_of_snoc: "x \<notin> set xs \<Longrightarrow> pos_of x (xs @ [x]) = Some (length xs)"
  by (induction xs) auto

lemma row_of_entry:
  "distinct (index f) \<Longrightarrow> (i, r) \<in> set (entries f) \<Longrightarrow> row_of f i = r"
  by (simp add: index_def row_of_def)

lemma attributes_length:
  assumes "wf_frame f" "distinct (index f)" "i \<in> set (index f)"
  shows "length (attributes f (row_of f i)) = length (filter (\<lambda>c. c \<noteq> Name ''geometry'') (columns f))"
proof -
  from assms(3) obtain r where r: "(i, r) \<in> set (entries f)"
    by (auto simp: index_def)
  with assms(2) have "row_of f i = r" by (rule row_of_entry)
  moreover from assms(1) r have "length r = length (columns f)"
    by (auto simp: wf_frame_def)
  ultimately show ?thesis
    by (simp add: attributes_def length_keep filter_map comp_def)
qed

lemma default_index_distinct: "default_index f \<Longrightarrow> distinct (index f)"
  by (simp add: default_index_def)

lemma named_columns_Pos: "named_columns f \<Longrightarrow> Pos n \<notin> set (columns f)"
  by (auto simp: named_columns_def list_all_iff)

lemma snoc_update: "length xs = n \<Longrightarrow> (xs @ [x])[n := y] = xs @ [y]"
  by auto

lemma snoc_cell_at: "length xs = n \<Longrightarrow> cell_at (xs @ [x]) n = x"
  by (auto simp: cell_at_def)

lemma run_streets_ok:
  assumes "run lib fs u = Inr nb"
  shows "default_index (nyc_streets nb)" "wf_frame (nyc_streets nb)" "named_columns (nyc_streets nb)"
proof -
  from assms obtain streets0 where l: "load_streets lib fs u = Inr streets0"
    and a: "apply_simplify lib u streets0 = Inr (nyc_streets nb)"
    by (auto elim!: run_Inr)
  show "default_index (nyc_streets nb)" "wf_frame (nyc_streets nb)" "named_columns (nyc_streets nb)"
    using load_streets_ok [OF l] apply_simplify_ok [OF a] by simp_all
qed

lemma run_rejoined:
  assumes "run lib fs u = Inr nb"
  shows "rejoin (reset_index (exploded nb)) (nyc_streets nb) =
     Inr \<lparr> columns = filter (\<lambda>c. c \<noteq> Name ''geometry'') (columns (nyc_streets nb)) @ [Name ''geometry''],
           entries = map (\<lambda>(n, ((i, j), g)). (n, attributes (nyc_streets nb) (row_of (nyc_streets nb) i) @ [GeoV g]))
                         (zip [0..<length (items (exploded nb))] (items (exploded nb))),
           crs = crs (nyc_streets nb) \<rparr>"
proof -
  from assms obtain rj where sp: "segmentize_points lib (nyc_streets nb) = Inr (exploded nb)"
    and rj: "rejoin (reset_index (exploded nb)) (nyc_streets nb) = Inr rj"
    by (auto elim!: run_Inr)
  note ok = run_streets_ok [OF assms]
  have p: "\<forall>((i, j), g) \<in> set (items (exploded nb)). i \<in> set (index (nyc_streets nb))"
    using segmentize_points_parent(1) [OF sp] by auto
  have c: "scrs (exploded nb) = crs (nyc_streets nb)"
    using sp by (auto elim: segmentize_points_items)
  show ?thesis
    using rejoin_reset_index [OF default_index_distinct [OF ok(1)] p named_columns_Pos [OF ok(3)]
      rejoin_Inr_columns(3) [OF rj] rejoin_Inr_columns(1) [OF rj] rejoin_Inr_columns(2) [OF rj] ok(2)]
    by (simp add: c)
qed

lemma run_segmentized:
  assumes "run lib fs u = Inr nb"
  shows "columns (segmentized nb) =
           filter (\<lambda>c. c \<noteq> Name ''geometry'') (columns (nyc_streets nb)) @ [Name ''geometry'']"
    and "entries (segmentized nb) =
           map (\<lambda>(n, ((i, j), g)).
                  (n, attributes (nyc_streets nb) (row_of (nyc_streets nb) i)
                      @ [GeoV (reproject lib (crs (nyc_streets nb)) target_crs g)]))
               (zip [0..<length (items (exploded nb))] (items (exploded nb)))"
    and "crs (segmentized nb) = Some target_crs"
proof -
  let ?st = "nyc_streets nb"
  let ?as = "filter (\<lambda>c. c \<noteq> Name ''geometry'') (columns ?st)"
  let ?zs = "zip [0..<length (items (exploded nb))] (items (exploded nb))"
  from assms obtain rj where sp: "segmentize_points lib ?st = Inr (exploded nb)"
    and rj: "rejoin (reset_index (exploded nb)) ?st = Inr rj"
    and tc: "to_crs lib target_crs rj = Inr (segmentized nb)"
    by (auto elim!: run_Inr)
  note ok = run_streets_ok [OF assms]
  from rj run_rejoined [OF assms] have
    rc: "columns rj = ?as @ [Name ''geometry'']" and
    re: "entries rj = map (\<lambda>(n, ((i, j), g)). (n, attributes ?st (row_of ?st i) @ [GeoV g])) ?zs" and
    rcrs: "crs rj = crs ?st"
    by auto
  from tc obtain k s where k: "geometry_pos rj = Inr k" and s: "crs rj = Some s"
    and c: "columns (segmentized nb) = columns rj" and cc: "crs (segmentized nb) = Some target_crs"
    and e: "entries (segmentized nb) = (if s = target_crs then entries rj
       else map (\<lambda>(i, r). (i, r[k := GeoV (map_geom (lib_transform lib s target_crs) (row_geom k r))])) (entries rj))"
    by (rule to_crs_Inr)
  from k have k': "k = length ?as"
    by (simp add: geometry_pos_Inr rc pos_of_snoc)
  have len: "length (attributes ?st (row_of ?st i)) = length ?as"
    if "((i, j), g) \<in> set (items (exploded nb))" for i j g
    using ok segmentize_points_parent(1) [OF sp that]
    by (intro attributes_length) (simp_all add: default_index_distinct)
  show "columns (segmentized nb) = ?as @ [Name ''geometry'']"
    by (simp add: c rc)
  show "crs (segmentized nb) = Some target_crs" by (rule cc)
  show "entries (segmentized nb) =
           map (\<lambda>(n, ((i, j), g)).
                  (n, attributes ?st (row_of ?st i) @ [GeoV (reproject lib (crs ?st) target_crs g)])) ?zs"
  proof (cases "s = target_crs")
    case True
    then show ?thesis using s rcrs by (simp add: e re reproject_def)
  next
    case False
    have "map (\<lambda>(i, r). (i, r[k := GeoV (map_geom (lib_transform lib s target_crs) (row_geom k r))])) (entries rj)
        = map (\<lambda>(n, ((i, j), g)).
                  (n, attributes ?st (row_of ?st i) @ [GeoV (map_geom (lib_transform lib s target_crs) g)])) ?zs"
      unfolding re map_map
      by (rule map_cong)
        (auto simp: k' len snoc_update snoc_cell_at row_geom_def cell_geom_def dest!: set_zip_rightD)
    with False show ?thesis using s rcrs by (simp add: e reproject_def)
  qed
qed

lemma filter_concat_key:
  assumes "distinct (map fst es)" "(i, r) \<in> set es"
  shows "filter (\<lambda>((i', j), g). i' = i) (concat (map (\<lambda>(i, r). map (\<lambda>(j, p). ((i, j), F p)) (G r)) es))
         = map (\<lambda>(j, p). ((i, j), F p)) (G r)"
  using assms
proof (induction es)
  case Nil then show ?case by simp
next
  case (Cons e es)
  obtain i0 r0 where e: "e = (i0, r0)" by (cases e)
  have none: "filter (\<lambda>((i', j), g). i' = i) (concat (map (\<lambda>(i, r). map (\<lambda>(j, p). ((i, j), F p)) (G r)) es)) = []"
    if "i \<notin> fst ` set es"
    using that by (auto simp: filter_empty_conv image_iff)
  show ?case
  proof (cases "i0 = i")
    case True
    with Cons.prems e have "r0 = r" "i \<notin> fst ` set es" by (auto simp: image_iff)
    then show ?thesis using e True none
      by (simp add: case_prod_unfold)
  next
    case False
    then have "filter (\<lambda>((i', j), g). i' = i) (map (\<lambda>(j, p). ((i0, j), F p)) (G r0)) = []"
      by (auto simp: filter_empty_conv)
    with Cons e False show ?thesis by auto
  qed
qed

lemma rows_of_line_points:
  assumes sp: "segmentize_points lib f = Inr pts" and k: "geometry_pos f = Inr k"
    and d: "distinct (index f)" and r: "(i, r) \<in> set (entries f)"
  shows "rows_of_line i pts =
           map (\<lambda>(j, p). ((i, j), Point p)) (enumerate 0 (line_points lib (row_geom k r)))"
proof -
  from sp obtain k' where k': "geometry_pos f = Inr k'" and
    it: "items pts = concat (map (\<lambda>(i, r). map (\<lambda>(j, p). ((i, j), Point p))
                                 (enumerate 0 (line_points lib (row_geom k' r)))) (entries f))"
    by (rule segmentize_points_items)
  from k k' have "k' = k" by simp
  with it d r show ?thesis
    unfolding rows_of_line_def index_def
    using filter_concat_key [of "entries f" i r "\<lambda>p. Point (snd p)" "\<lambda>r. map (\<lambda>(j, p). (j, (j, p))) (enumerate 0 (line_points lib (row_geom k r)))"]
    by (simp add: case_prod_unfold comp_def)
qed

lemma clip_points:
  assumes c: "clip lib gdf msk = Inr t" and k: "geometry_pos gdf = Inr k"
    and pts: "\<forall>(i, r) \<in> set (entries gdf). \<exists>p. row_geom k r = Point p"
  shows "columns t = columns gdf" "crs t = crs gdf"
    "\<exists>P. entries t = filter P (entries gdf)"
proof -
  from c k obtain km where km: "geometry_pos msk = Inr km"
    and t: "t = gdf\<lparr>entries := map (\<lambda>(i, r).
                          case row_geom k r of
                            Point p \<Rightarrow> (i, r)
                          | g \<Rightarrow> (i, r[k := GeoV (lib_intersection lib g (map (\<lambda>(i, r). row_geom km r) (entries msk)))]))
                 (filter (\<lambda>(i, r). lib_intersects lib (row_geom k r) (map (\<lambda>(i, r). row_geom km r) (entries msk))) (entries gdf))\<rparr>"
    by (auto simp: clip_def bnd_Inr_iff Let_def)
  show "columns t = columns gdf" "crs t = crs gdf" by (simp_all add: t)
  let ?P = "\<lambda>(i, r). lib_intersects lib (row_geom k r) (map (\<lambda>(i, r). row_geom km r) (entries msk))"
  have "entries t = filter ?P (entries gdf)"
    unfolding t select_convs surjective update_convs
  proof (simp, rule map_idI)
    fix x assume x: "x \<in> set (filter ?P (entries gdf))"
    obtain i r where ir: "x = (i, r)" by (cases x)
    with x pts obtain p where "row_geom k r = Point p" by fastforce
    with ir show "(case x of (i, r) \<Rightarrow>
                          case row_geom k r of
                            Point p \<Rightarrow> (i, r)
                          | g \<Rightarrow> (i, r[k := GeoV (lib_intersection lib g (map (\<lambda>(i, r). row_geom km r) (entries msk)))])) = x"
      by simp
  qed
  then show "\<exists>P. entries t = filter P (entries gdf)" by blast
qed

lemma map_geom_Point: "\<exists>q. reproject lib src c (Point p) = Point q"
  by (auto simp: reproject_def split: option.splits)

lemma run_segmentized_points:
  assumes "run lib fs u = Inr nb"
  obtains k where "geometry_pos (segmentized nb) = Inr k"
    "\<forall>(i, r) \<in> set (entries (segmentized nb)). \<exists>p. row_geom k r = Point p"
proof -
  let ?st = "nyc_streets nb"
  let ?as = "filter (\<lambda>c. c \<noteq> Name ''geometry'') (columns ?st)"
  from assms have sp: "segmentize_points lib ?st = Inr (exploded nb)"
    by (auto elim!: run_Inr)
  note ok = run_streets_ok [OF assms]
  note seg = run_segmentized [OF assms]
  have k: "geometry_pos (segmentized nb) = Inr (length ?as)"
    by (simp add: geometry_pos_Inr seg(1) pos_of_snoc)
  have "\<exists>p. row_geom (length ?as) r = Point p" if "(n, r) \<in> set (entries (segmentized nb))" for n r
  proof -
    from that obtain i j g where ij: "((i, j), g) \<in> set (items (exploded nb))"
      and r: "r = attributes ?st (row_of ?st i) @ [GeoV (reproject lib (crs ?st) target_crs g)]"
      unfolding seg(2) by (auto dest!: set_zip_rightD)
    from segmentize_points_parent [OF sp ij] ok
    have len: "length (attributes ?st (row_of ?st i)) = length ?as" and "\<exists>p. g = Point p"
      by (simp_all add: attributes_length default_index_distinct)
    then show ?thesis
      using map_geom_Point [of lib "crs ?st" target_crs]
      by (auto simp: r row_geom_def snoc_cell_at cell_geom_def)
  qed
  with k show ?thesis by (intro that) auto
qed

lemma example_run: "run planar_lib example_fs True = Inr example_nb"
proof -
  have "\<not> isl (run planar_lib example_fs True)" by code_simp
  then show ?thesis by (simp add: example_nb_def)
qed

lemma drop_columns_index: "drop_columns labs f = Inr f' \<Longrightarrow> index f' = index f"
  by (auto simp: drop_columns_def index_def Let_def comp_def case_prod_unfold split: if_splits)

lemma map_fst_fst_zip: "length ys = length xs \<Longrightarrow> map (\<lambda>x. fst (fst x)) (zip xs ys) = map fst xs"
  by (induction ys xs rule: list_induct2) auto

lemma set_column_index: "length vals = length (entries f) \<Longrightarrow> index (set_column lab vals f) = index f"
  by (auto simp: set_column_def index_def comp_def case_prod_unfold map_fst_fst_zip
      split: option.splits)

lemma iloc_col_length: "iloc_col f k = Inr c \<Longrightarrow> length c = length (entries f)"
  by (auto simp: iloc_col_def split: if_splits)

lemma rejoin_index:
  assumes "rejoin l r = Inr t"
  obtains m where "merge l r (Name ''level_0'') = Inr m" "index t = index m"
proof -
  from assms obtain m d c lab where m: "merge l r (Name ''level_0'') = Inr m"
    and d: "drop_columns [Name ''level_0'', Name ''level_1'', Name ''geometry''] m = Inr d"
    and c: "iloc_col d 0 = Inr c"
    and t: "drop_columns [lab] (set_column (Name ''geometry'') c d) = Inr t"
    by (auto simp: rejoin_def bnd_Inr_iff Let_def)
  have "index t = index (set_column (Name ''geometry'') c d)"
    using t by (rule drop_columns_index)
  also have "\<dots> = index d"
    using c by (intro set_column_index iloc_col_length)
  also have "\<dots> = index m"
    using d by (rule drop_columns_index)
  finally show ?thesis using m that by blast
qed

lemma attributes_snoc:
  assumes "length as = length (filter (\<lambda>c. c \<noteq> Name ''geometry'') cs)"
  shows "keep (map (\<lambda>c. c \<noteq> Name ''geometry'') (filter (\<lambda>c. c \<noteq> Name ''geometry'') cs @ [Name ''geometry'']))
           (as @ [x]) = as"
proof -
  let ?as = "filter (\<lambda>c. c \<noteq> Name ''geometry'') cs"
  have k: "keep (map (\<lambda>c. c \<noteq> Name ''geometry'') ?as) as = as"
    by (rule keep_all) (simp_all add: assms)
  have "keep (map (\<lambda>c. c \<noteq> Name ''geometry'') ?as @ [False]) (as @ [x])
      = keep (map (\<lambda>c. c \<noteq> Name ''geometry'') ?as) as @ keep [False] [x]"
    by (rule keep_append) (simp add: assms)
  with k show ?thesis by simp
qed




lemma row_geom_update: "k < length r \<Longrightarrow> row_geom k (r[k := GeoV g]) = g"
  by (simp add: row_geom_def cell_at_def cell_geom_def)

lemma run_streets_geometry:
  assumes "run lib fs u = Inr nb"
  obtains k where "geometry_pos (loaded_streets nb) = Inr k" "geometry_pos (nyc_streets nb) = Inr k"
    "entries (nyc_streets nb) =
       map (\<lambda>(i, r). (i, if u then r else r[k := GeoV (lib_simplify lib 10 (row_geom k r))]))
           (entries (loaded_streets nb))"
    "\<forall>(i, r) \<in> set (entries (loaded_streets nb)). k < length r"
proof -
  let ?l = "loaded_streets nb" and ?s = "nyc_streets nb"
  from assms have l: "load_streets lib fs u = Inr ?l"
    and a: "apply_simplify lib u ?l = Inr ?s"
    and sp: "segmentize_points lib ?s = Inr (exploded nb)"
    by (auto elim!: run_Inr)
  from sp obtain k where k: "geometry_pos ?s = Inr k"
    by (rule segmentize_points_items)
  have cols: "columns ?s = columns ?l" using a by (rule apply_simplify_ok)
  with k have kl: "geometry_pos ?l = Inr k" by (simp add: geometry_pos_def)
  from k have "k < length (columns ?l)"
    by (auto simp: geometry_pos_Inr cols dest: pos_of_Some)
  with load_streets_ok(2) [OF l] have len: "\<forall>(i, r) \<in> set (entries ?l). k < length r"
    by (auto simp: wf_frame_def)
  from a have e: "entries ?s =
       map (\<lambda>(i, r). (i, if u then r else r[k := GeoV (lib_simplify lib 10 (row_geom k r))])) (entries ?l)"
  proof (cases rule: apply_simplify_Inr)
    case 1
    then show ?thesis by (simp add: case_prod_unfold)
  next
    case (2 k')
    with kl have "k' = k" by simp
    with 2 show ?thesis by simp
  qed
  from kl k e len show ?thesis by (rule that)
qed


lemma bend_run: "run planar_lib bend_fs u = Inr (bend_nb u)"
proof -
  have "\<not> isl (run planar_lib bend_fs True)" "\<not> isl (run planar_lib bend_fs False)"
    by code_simp+
  then have "\<not> isl (run planar_lib bend_fs u)" by (cases u) simp_all
  then show ?thesis by (simp add: bend_nb_def)
qed

section \<open>Properties of the line operations\<close>

lemma seg_count_enough:
  assumes "0 < d"
  shows "l2 \<le> (of_nat (seg_count d l2) * d)\<^sup>2"
proof -
  let ?P = "\<lambda>n :: nat. l2 \<le> (of_nat n * d)\<^sup>2"
  let ?n0 = "nat \<lceil>l2 / d\<^sup>2\<rceil>"
  have "?P ?n0"
  proof (cases "l2 \<le> 0")
    case True
    then show ?thesis by (simp add: order_trans [OF _ zero_le_power2])
  next
    case False
    then have pos: "0 < l2 / d\<^sup>2" using assms by simp
    then have c: "1 \<le> \<lceil>l2 / d\<^sup>2\<rceil>" by (simp add: ceiling_le_iff [symmetric] less_ceiling_iff)
    have "l2 / d\<^sup>2 \<le> of_int \<lceil>l2 / d\<^sup>2\<rceil>" by (rule le_of_int_ceiling)
    also have "\<dots> = of_nat ?n0" using c by simp
    also have "\<dots> \<le> (of_nat ?n0)\<^sup>2"
    proof -
      have "?n0 \<le> ?n0 * ?n0" by (cases ?n0) simp_all
      then have "(of_nat ?n0 :: rat) \<le> of_nat (?n0 * ?n0)" by (simp only: of_nat_le_iff)
      then show ?thesis by (simp add: power2_eq_square)
    qed
    finally have "l2 / d\<^sup>2 \<le> (of_nat ?n0)\<^sup>2" .
    then have "l2 \<le> (of_nat ?n0)\<^sup>2 * d\<^sup>2"
      using assms by (simp add: pos_divide_le_eq)
    then show ?thesis by (simp add: power_mult_distrib)
  qed
  then have "\<exists>n \<in> set [0..<Suc ?n0]. ?P n" by auto
  then obtain n where "find ?P [0..<Suc ?n0] = Some n"
    by (cases "find ?P [0..<Suc ?n0]") (auto simp: find_None_iff)
  moreover from this have "?P n" by (auto simp: find_Some_iff)
  ultimately show ?thesis by (simp add: seg_count_def)
qed

lemma interpolate_0: "interpolate a b n 0 = a"
  by (simp add: interpolate_def)

lemma interpolate_n: "0 < n \<Longrightarrow> interpolate a b n n = b"
  by (simp add: interpolate_def)

lemma interpolate_on_segment: "j \<le> n \<Longrightarrow> 0 < n \<Longrightarrow> on_segment (interpolate a b n j) a b"
  unfolding on_segment_def interpolate_def
  by (rule exI [where x = "of_nat j / of_nat n"]) simp

lemma on_segment_end: "on_segment b a b"
  unfolding on_segment_def by (rule exI [where x = 1]) simp

lemma dist2_interpolate:
  assumes "0 < n"
  shows "dist2 (interpolate a b n j) (interpolate a b n (Suc j)) = dist2 a b / (of_nat n)\<^sup>2"
proof -
  have x: "fst (interpolate a b n (Suc j)) - fst (interpolate a b n j) = (fst b - fst a) / of_nat n"
    by (simp add: interpolate_def add_divide_distrib distrib_right)
  have y: "snd (interpolate a b n (Suc j)) - snd (interpolate a b n j) = (snd b - snd a) / of_nat n"
    by (simp add: interpolate_def add_divide_distrib distrib_right)
  show ?thesis
    unfolding dist2_def [of "interpolate a b n j"] x y
    by (simp add: dist2_def power_divide add_divide_distrib)
qed

lemma successively_upt:
  "(\<And>i. i < n \<Longrightarrow> Q i (Suc i)) \<Longrightarrow> successively Q [0..<Suc n]"
proof (induction n)
  case 0
  then show ?case by simp
next
  case (Suc n)
  have "[0..<Suc (Suc n)] = [0..<Suc n] @ [Suc n]" by simp
  with Suc show ?case
    by (simp only: successively_append_iff) simp
qed

lemma densify_segment_interpolate:
  assumes "0 < seg_count d (dist2 a b)"
  shows "a # densify_segment d a b = map (interpolate a b (seg_count d (dist2 a b))) [0..<Suc (seg_count d (dist2 a b))]"
proof -
  let ?n = "seg_count d (dist2 a b)"
  have "[0..<Suc ?n] = 0 # [1..<?n] @ [?n]"
    using assms by (simp add: upt_conv_Cons)
  then show ?thesis
    using assms by (simp add: densify_segment_def Let_def interpolate_0 interpolate_n)
qed

lemma densify_segment_spacing:
  assumes "0 < d"
  shows "successively (within_spacing d) (a # densify_segment d a b)"
proof (cases "0 < seg_count d (dist2 a b)")
  case False
  then have n: "seg_count d (dist2 a b) = 0" by simp
  from seg_count_enough [OF assms, of "dist2 a b"] have "dist2 a b \<le> 0" by (simp add: n)
  also have "\<dots> \<le> d\<^sup>2" by simp
  finally show ?thesis by (simp add: densify_segment_def n within_spacing_def)
next
  case True
  let ?n = "seg_count d (dist2 a b)"
  have le: "dist2 a b / (of_nat ?n)\<^sup>2 \<le> d\<^sup>2"
    using seg_count_enough [OF assms, of "dist2 a b"] True
    by (simp add: pos_divide_le_eq power_mult_distrib mult.commute)
  show ?thesis
    unfolding densify_segment_interpolate [OF True] successively_map
    by (rule successively_upt) (simp add: within_spacing_def dist2_interpolate [OF True] le)
qed

lemma densify_segment_on_segment:
  "p \<in> set (densify_segment d a b) \<Longrightarrow> on_segment p a b"
  by (auto simp: densify_segment_def Let_def on_segment_end intro!: interpolate_on_segment)

lemma densify_segment_last: "last (densify_segment d a b) = b" "densify_segment d a b \<noteq> []"
  by (simp_all add: densify_segment_def Let_def)

lemma densify_simps:
  "densify d [] = []" "densify d [a] = [a]"
  "densify d (a # b # ps) = a # densify_segment d a b @ tl (densify d (b # ps))"
  by (simp_all add: densify_def)

lemma densify_hd: "densify d (b # ps) = b # tl (densify d (b # ps))"
  by (simp add: densify_def)

lemma densify_spacing:
  assumes "0 < d"
  shows "successively (within_spacing d) (densify d vs)"
proof (induction vs rule: induct_list012)
  case 1
  show ?case by (simp add: densify_simps)
next
  case (2 a)
  show ?case by (simp add: densify_simps)
next
  case (3 a b ps)
  let ?T = "tl (densify d (b # ps))"
  from "3.IH"(2) have "successively (within_spacing d) (b # ?T)"
    by (simp add: densify_hd [symmetric])
  then have T: "?T = [] \<or> within_spacing d b (hd ?T) \<and> successively (within_spacing d) ?T"
    by (simp add: successively_Cons)
  have S: "successively (within_spacing d) (a # densify_segment d a b)"
    using assms by (rule densify_segment_spacing)
  have "densify d (a # b # ps) = (a # densify_segment d a b) @ ?T"
    by (simp add: densify_simps)
  moreover have "successively (within_spacing d) ((a # densify_segment d a b) @ ?T)"
    unfolding successively_append_iff using S T
    by (auto simp: densify_segment_last)
  ultimately show ?case by simp
qed

lemma on_line_Cons: "on_line p vs \<Longrightarrow> on_line p (a # vs)"
  by (cases vs) (auto simp: on_line_def)

lemma densify_on_line: "p \<in> set (densify d vs) \<Longrightarrow> on_line p vs"
proof (induction vs rule: induct_list012)
  case 1
  then show ?case by (simp add: densify_simps)
next
  case (2 a)
  then show ?case by (simp add: densify_simps on_line_def)
next
  case (3 a b ps)
  from "3.prems" consider "p = a" | "p \<in> set (densify_segment d a b)" | "p \<in> set (tl (densify d (b # ps)))"
    by (auto simp: densify_simps)
  then show ?case
  proof cases
    case 1
    then show ?thesis by (simp add: on_line_def)
  next
    case 2
    then have "on_segment p a b" by (rule densify_segment_on_segment)
    then show ?thesis by (auto simp: on_line_def)
  next
    case 3
    then have "p \<in> set (densify d (b # ps))"
      by (subst densify_hd) simp
    then have "on_line p (b # ps)" by (rule "3.IH"(2))
    then show ?thesis by (rule on_line_Cons)
  qed
qed

lemma densify_vertices: "set vs \<subseteq> set (densify d vs)"
proof (induction vs rule: induct_list012)
  case 1
  show ?case by simp
next
  case (2 a)
  show ?case by (simp add: densify_simps)
next
  case (3 a b ps)
  have "b \<in> set (densify_segment d a b)"
    using densify_segment_last [of d a b] last_in_set by metis
  moreover have "set ps \<subseteq> insert b (set (tl (densify d (b # ps))))"
    using "3.IH"(2) by (subst (asm) densify_hd) auto
  ultimately show ?case by (auto simp: densify_simps)
qed

lemma shapely_line_points:
  "shapely_unique_points (shapely_segmentize d (LineString vs)) = rev (remdups (rev (densify d vs)))"
  by (simp add: shapely_unique_points_def shapely_segmentize_def)

lemma map_snd_indexed:
  "map snd (map (\<lambda>(j, p). ((i, j), F p)) (enumerate n xs)) = map F xs"
  by (induction xs arbitrary: n) simp_all

lemma map_fst_indexed:
  "map fst (map (\<lambda>(j, p). ((i, j), F p)) (enumerate n xs)) = map (Pair i) [n..<n + length xs]"
proof -
  have a: "map fst (map (\<lambda>(j, p). ((i, j), F p)) zs) = map (Pair i) (map fst zs)" for zs
    by (induction zs) auto
  have b: "map fst (zip [n..<n + length xs] xs) = [n..<n + length xs]"
    by (rule map_fst_zip) simp
  show ?thesis
    unfolding enumerate_eq_zip a b ..
qed

lemma interpolate_inj:
  assumes "a \<noteq> b" "0 < n" "interpolate a b n j = interpolate a b n j'"
  shows "j = j'"
proof -
  from assms(3) have x: "of_nat j / of_nat n * (fst b - fst a) = of_nat j' / of_nat n * (fst b - fst a)"
    and y: "of_nat j / of_nat n * (snd b - snd a) = of_nat j' / of_nat n * (snd b - snd a)"
    by (simp_all add: interpolate_def)
  from assms(1) have "fst b - fst a \<noteq> 0 \<or> snd b - snd a \<noteq> 0"
    by (auto simp: prod_eq_iff)
  with x y have "(of_nat j :: rat) / of_nat n = of_nat j' / of_nat n" by auto
  with assms(2) show ?thesis by simp
qed

lemma line_points_two:
  assumes "lib_segmentize lib = shapely_segmentize"
    and "lib_unique_points lib = shapely_unique_points"
    and "0 < dist2 a b"
  shows "length (line_points lib (LineString [a, b])) = Suc (seg_count 50 (dist2 a b))"
proof -
  let ?n = "seg_count 50 (dist2 a b)"
  from assms(3) have ab: "a \<noteq> b" by (auto simp: dist2_def)
  have n: "0 < ?n"
  proof (rule ccontr)
    assume "\<not> 0 < ?n"
    then have "?n = 0" by simp
    with seg_count_enough [of 50 "dist2 a b"] have "dist2 a b \<le> 0" by simp
    with assms(3) show False by simp
  qed
  have d: "densify 50 [a, b] = map (interpolate a b ?n) [0..<Suc ?n]"
    using densify_segment_interpolate [OF n] by (simp add: densify_simps)
  have "inj_on (interpolate a b ?n) (set [0..<Suc ?n])"
    by (rule inj_onI) (rule interpolate_inj [OF ab n])
  then have "distinct (densify 50 [a, b])"
    unfolding d by (simp add: distinct_map)
  then have "rev (remdups (rev (densify 50 [a, b]))) = densify 50 [a, b]"
    by (simp add: distinct_remdups_id)
  then have "line_points lib (LineString [a, b]) = densify 50 [a, b]"
    by (simp add: line_points_def assms(1,2) shapely_line_points)
  then show ?thesis by (simp add: d)
qed

lemma seg_count_values:
  "seg_count 50 100 = 1" "seg_count 50 3600 = 2" "seg_count 50 14400 = 3"
  by code_simp+

lemma level_0_items:
  assumes "segmentize_points lib f = Inr pts" "geometry_pos f = Inr k"
  shows "map (\<lambda>((i, j), g). i) (items pts)
       = concat (map (\<lambda>(i, r). replicate (length (line_points lib (row_geom k r))) i) (entries f))"
proof -
  from assms(1) obtain k' where k': "geometry_pos f = Inr k'" and
    it: "items pts = concat (map (\<lambda>(i, r). map (\<lambda>(j, p). ((i, j), Point p))
                                 (enumerate 0 (line_points lib (row_geom k' r)))) (entries f))"
    by (rule segmentize_points_items)
  from k' assms(2) have kk: "k' = k" by simp
  show ?thesis
    unfolding it kk map_concat map_map
    by (rule arg_cong [where f = concat]) (auto simp: comp_def case_prod_unfold map_replicate_const)
qed

lemma run_attribute_rows:
  assumes "run lib fs u = Inr nb"
  shows "map (attributes (segmentized nb)) (rows (segmentized nb))
       = map (\<lambda>((i, j), g). attributes (nyc_streets nb) (row_of (nyc_streets nb) i)) (items (exploded nb))"
proof -
  let ?st = "nyc_streets nb"
  note seg = run_segmentized [OF assms]
  note ok = run_streets_ok [OF assms]
  from assms have sp: "segmentize_points lib ?st = Inr (exploded nb)"
    by (auto elim!: run_Inr)
  have d: "distinct (index ?st)" using ok(1) by (rule default_index_distinct)
  have one: "attributes (segmentized nb) (attributes ?st (row_of ?st i) @ [x]) = attributes ?st (row_of ?st i)"
    if "((i, j), g) \<in> set (items (exploded nb))" for i j g x
    unfolding attributes_def [of "segmentized nb"] seg(1)
    by (rule attributes_snoc)
      (rule attributes_length [OF ok(2) d segmentize_points_parent(1) [OF sp that]])
  have "map (attributes (segmentized nb)) (map snd (entries (segmentized nb)))
      = map (\<lambda>((i, j), g). attributes ?st (row_of ?st i))
          (map snd (zip [0..<length (items (exploded nb))] (items (exploded nb))))"
    unfolding seg(2) map_map
    by (rule map_cong) (auto simp: one dest!: set_zip_rightD)
  then show ?thesis
    by (simp only: rows_def map_snd_zip length_upt minus_nat.diff_0)
qed

lemma three_entries:
  assumes "default_index f" "map h (rows f) = [x0, x1, x2]"
  obtains r0 r1 r2 where "entries f = [(0, r0), (1, r1), (2, r2)]" "h r0 = x0" "h r1 = x1" "h r2 = x2"
proof -
  from assms(2) have len: "length (entries f) = 3"
    by (metis length_map rows_def length_Cons list.size(3) numeral_3_eq_3)
  then obtain e0 e1 e2 where e: "entries f = [e0, e1, e2]"
    by (auto simp: length_Suc_conv numeral_3_eq_3)
  from assms(1) have "map fst (entries f) = [0, 1, 2]"
    by (simp add: default_index_def index_def len upt_rec)
  with e have "e0 = (0, snd e0)" "e1 = (1, snd e1)" "e2 = (2, snd e2)"
    by (auto simp: prod_eq_iff)
  with e have e': "entries f = [(0, snd e0), (1, snd e1), (2, snd e2)]" by simp
  with assms(2) have "h (snd e0) = x0" "h (snd e1) = x1" "h (snd e2) = x2"
    by (simp_all add: rows_def)
  with e' show ?thesis by (rule that)
qed

section \<open>The claims\<close>

text \<open>
  Claim C1. For every line of the line table, cell 10 produces exactly one row per unique
  point of the segmentized line (the rows of the line are its distinct points, numbered
  \<open>0, 1, \<dots>\<close>); every produced point lies on the original line; walking along the
  line, the vertices of the segmentized line follow each other at no more than 50 units,
  and each of them is a produced point (they are the produced points, in this order,
  when the segmentized line passes no vertex twice); and every vertex of the original
  line, so both of its endpoints however short it is, is among the produced points.
\<close>

theorem segmentize_unique_points_on_line:
  assumes "lib_segmentize lib = shapely_segmentize"
    and "lib_unique_points lib = shapely_unique_points"
    and "segmentize_points lib f = Inr pts"
    and "geometry_pos f = Inr k"
    and "distinct (index f)"
    and "(i, r) \<in> set (entries f)"
    and "row_geom k r = LineString vs"
  shows "map snd (rows_of_line i pts) = map Point (line_points lib (LineString vs))
       \<and> map fst (rows_of_line i pts) = map (Pair i) [0..<length (line_points lib (LineString vs))]
       \<and> distinct (line_points lib (LineString vs))
       \<and> (\<forall>p \<in> set (line_points lib (LineString vs)). on_line p vs)
       \<and> set (line_points lib (LineString vs)) = set (densify 50 vs)
       \<and> successively (within_spacing 50) (densify 50 vs)
       \<and> (distinct (densify 50 vs) \<longrightarrow> line_points lib (LineString vs) = densify 50 vs)
       \<and> set vs \<subseteq> set (line_points lib (LineString vs))"
proof -
  let ?ps = "line_points lib (LineString vs)"
  have ps: "?ps = rev (remdups (rev (densify 50 vs)))"
    by (simp add: line_points_def assms(1,2) shapely_line_points)
  have rows: "rows_of_line i pts = map (\<lambda>(j, p). ((i, j), Point p)) (enumerate 0 ?ps)"
    using rows_of_line_points [OF assms(3-6)] by (simp add: assms(7))
  have 1: "map snd (rows_of_line i pts) = map Point ?ps"
    unfolding rows by (rule map_snd_indexed)
  have 2: "map fst (rows_of_line i pts) = map (Pair i) [0..<length ?ps]"
    unfolding rows using map_fst_indexed [of i Point 0 ?ps] by simp
  have 3: "distinct ?ps" by (simp add: ps)
  have 5: "set ?ps = set (densify 50 vs)" by (simp add: ps)
  have 4: "\<forall>p \<in> set ?ps. on_line p vs"
    unfolding 5 by (auto intro: densify_on_line)
  have 6: "successively (within_spacing 50) (densify 50 vs)"
    by (rule densify_spacing) simp
  have 7: "set vs \<subseteq> set ?ps"
    unfolding 5 by (rule densify_vertices)
  have 8: "distinct (densify 50 vs) \<longrightarrow> ?ps = densify 50 vs"
    by (simp add: ps distinct_remdups_id)
  from 1 2 3 4 5 6 8 7 show ?thesis by (intro conjI)
qed

theorem segmentize_unique_points_on_line_witness:
  "segmentize_points planar_lib (nyc_streets example_nb) = Inr (exploded example_nb)
   \<and> (1, [NumV 6, GeoV (LineString [(0, 20), (60, 20)])]) \<in> set (entries (nyc_streets example_nb))
   \<and> map snd (rows_of_line 1 (exploded example_nb)) = map Point [(0, 20), (30, 20), (60, 20)]
   \<and> on_line (30, 20) [(0, 20), (60, 20)]
   \<and> successively (within_spacing 50) (densify 50 [(0, 20), (60, 20)])"
proof -
  let ?r = "[NumV 6, GeoV (LineString [(0, 20), (60, 20)])]"
  have l: "lib_segmentize planar_lib = shapely_segmentize"
    "lib_unique_points planar_lib = shapely_unique_points"
    by (simp_all add: planar_lib_def)
  have s: "segmentize_points planar_lib (nyc_streets example_nb) = Inr (exploded example_nb)"
    by code_simp
  have k: "geometry_pos (nyc_streets example_nb) = Inr 1"
    by code_simp
  have d: "distinct (index (nyc_streets example_nb))"
    by code_simp
  have m: "(1, ?r) \<in> set (entries (nyc_streets example_nb))"
    by code_simp
  have g: "row_geom 1 ?r = LineString [(0, 20), (60, 20)]"
    by code_simp
  have p: "line_points planar_lib (LineString [(0, 20), (60, 20)]) = [(0, 20), (30, 20), (60, 20)]"
    by code_simp
  note t = segmentize_unique_points_on_line [OF l s k d m g, unfolded p]
  from t have "on_line (30, 20) [(0, 20), (60, 20)]" by simp
  with s m t show ?thesis by blast
qed

text \<open>
  Claim C2. The \<open>n\<close>-th row of the rejoined point table holds the point of the
  \<open>n\<close>-th exploded row and carries, in the columns other than \<open>geometry\<close>,
  exactly the values of the line row that the back-reference of that exploded row
  identifies; that line row is the only one with this index label, and the attribute
  columns of the two tables are the same.
\<close>

theorem rejoin_preserves_parent_attributes:
  assumes "run lib fs u = Inr nb" and "n < length (entries (segmentized nb))"
  shows "\<exists>i j g parent.
           items (exploded nb) ! n = ((i, j), g)
         \<and> (i, parent) \<in> set (entries (nyc_streets nb))
         \<and> filter (\<lambda>(i', r). i' = i) (entries (nyc_streets nb)) = [(i, parent)]
         \<and> fst (entries (segmentized nb) ! n) = n
         \<and> cell_geom (last (snd (entries (segmentized nb) ! n)))
             = reproject lib (crs (nyc_streets nb)) (EPSG 2263) g
         \<and> attributes (segmentized nb) (snd (entries (segmentized nb) ! n))
             = attributes (nyc_streets nb) parent
         \<and> filter (\<lambda>c. c \<noteq> Name ''geometry'') (columns (segmentized nb))
             = filter (\<lambda>c. c \<noteq> Name ''geometry'') (columns (nyc_streets nb))"
proof -
  let ?st = "nyc_streets nb"
  note seg = run_segmentized [OF assms(1)]
  note ok = run_streets_ok [OF assms(1)]
  from assms(1) have sp: "segmentize_points lib ?st = Inr (exploded nb)"
    by (auto elim!: run_Inr)
  from assms(2) have n: "n < length (items (exploded nb))"
    by (simp add: seg(2))
  obtain i j g where it: "items (exploded nb) ! n = ((i, j), g)"
    by (metis prod.exhaust)
  with n have mem: "((i, j), g) \<in> set (items (exploded nb))"
    by (metis nth_mem)
  from segmentize_points_parent(1) [OF sp mem] obtain parent
    where par: "(i, parent) \<in> set (entries ?st)"
    by (auto simp: index_def)
  have d: "distinct (index ?st)" using ok(1) by (rule default_index_distinct)
  have ro: "row_of ?st i = parent" using d par by (rule row_of_entry)
  have len: "length (attributes ?st parent) = length (filter (\<lambda>c. c \<noteq> Name ''geometry'') (columns ?st))"
    using attributes_length [OF ok(2) d segmentize_points_parent(1) [OF sp mem]] ro by simp
  have row: "snd (entries (segmentized nb) ! n)
      = attributes ?st parent @ [GeoV (reproject lib (crs ?st) target_crs g)]"
    using n by (simp add: seg(2) it ro)
  have ix: "fst (entries (segmentized nb) ! n) = n"
    using n by (simp add: seg(2) it)
  have pt: "cell_geom (last (snd (entries (segmentized nb) ! n)))
             = reproject lib (crs ?st) (EPSG 2263) g"
    unfolding row by (simp add: cell_geom_def target_crs_def)
  have "attributes (segmentized nb) (snd (entries (segmentized nb) ! n)) = attributes ?st parent"
    unfolding row unfolding attributes_def [of "segmentized nb"] seg(1)
    using len by (rule attributes_snoc)
  moreover have "filter (\<lambda>(i', r). i' = i) (entries ?st) = [(i, parent)]"
    using d par by (intro filter_unique_key) (simp_all add: index_def)
  moreover have "filter (\<lambda>c. c \<noteq> Name ''geometry'') (columns (segmentized nb))
             = filter (\<lambda>c. c \<noteq> Name ''geometry'') (columns ?st)"
    by (simp add: seg(1))
  ultimately show ?thesis using it par ix pt by blast
qed

theorem rejoin_preserves_parent_attributes_witness:
  "run planar_lib example_fs True = Inr example_nb
   \<and> 4 < length (entries (segmentized example_nb))
   \<and> (\<exists>i j g parent.
           items (exploded example_nb) ! 4 = ((i, j), g)
         \<and> (i, parent) \<in> set (entries (nyc_streets example_nb))
         \<and> filter (\<lambda>(i', r). i' = i) (entries (nyc_streets example_nb)) = [(i, parent)]
         \<and> fst (entries (segmentized example_nb) ! 4) = 4
         \<and> cell_geom (last (snd (entries (segmentized example_nb) ! 4)))
             = reproject planar_lib (crs (nyc_streets example_nb)) (EPSG 2263) g
         \<and> attributes (segmentized example_nb) (snd (entries (segmentized example_nb) ! 4))
             = attributes (nyc_streets example_nb) parent
         \<and> filter (\<lambda>c. c \<noteq> Name ''geometry'') (columns (segmentized example_nb))
             = filter (\<lambda>c. c \<noteq> Name ''geometry'') (columns (nyc_streets example_nb)))"
proof -
  have h: "4 < length (entries (segmentized example_nb))"
    by code_simp
  from example_run h rejoin_preserves_parent_attributes [OF example_run h] show ?thesis
    by (intro conjI)
qed



text \<open>
  Claim C4, as stated: three lines of lengths 10, 60 and 120 yield 2, 2 and 3 unique
  points at spacing 50, and 7 exported rows. It fails: the straight lines of these lengths
  yield 2, 3 and 4 points and 9 exported rows; and the rule the claim itself gives
  (the two endpoints plus each interior multiple of 50) counts 2, 3 and 4 marks too.
\<close>

theorem three_lines_yield_nine_rows:
  "map (squared_length \<circ> geometry) three_lines = [10\<^sup>2, 60\<^sup>2, 120\<^sup>2]
   \<and> map_sum id points_per_line (run planar_lib example_fs True) = Inr [2, 3, 4]
   \<and> map_sum id points_per_line (run planar_lib example_fs True) \<noteq> Inr [2, 2, 3]
   \<and> map_sum id (length \<circ> tl \<circ> csv) (run planar_lib example_fs True) = Inr 9
   \<and> length (interval_marks 10 50) = 2
   \<and> length (interval_marks 60 50) = 3
   \<and> length (interval_marks 120 50) = 4"
  by code_simp

text \<open>
  Claim C4, amended. When the line table that cell 10 segmentizes holds exactly three
  straight lines (two vertices each) of lengths 10, 60 and 120, the points derived are
  2, 3 and 4 (the two endpoints and the interior vertices that divide the line into
  equal segments of at most 50 units), the exported table has exactly 9 rows, and each
  row carries the attributes of its source line unchanged.
\<close>

theorem three_lines_scenario_counts:
  assumes "lib_segmentize lib = shapely_segmentize"
    and "lib_unique_points lib = shapely_unique_points"
    and "run lib fs u = Inr nb"
    and "geometry_pos (nyc_streets nb) = Inr k"
    and "map (row_geom k) (rows (nyc_streets nb))
           = [LineString [a1, b1], LineString [a2, b2], LineString [a3, b3]]"
    and "dist2 a1 b1 = 10\<^sup>2" and "dist2 a2 b2 = 60\<^sup>2" and "dist2 a3 b3 = 120\<^sup>2"
  shows "points_per_line nb = [2, 3, 4]
       \<and> length (entries (segmentized nb)) = 9
       \<and> length (tl (csv nb)) = 9
       \<and> map (attributes (segmentized nb)) (rows (segmentized nb))
           = map (\<lambda>i. attributes (nyc_streets nb) (rows (nyc_streets nb) ! i))
                 [0, 0, 1, 1, 1, 2, 2, 2, 2]"
proof -
  let ?st = "nyc_streets nb"
  from assms(3) have sp: "segmentize_points lib (nyc_streets nb) = Inr (exploded nb)"
    and c: "csv nb = to_csv (lib_render lib) (segmentized nb)"
    by (auto elim!: run_Inr)
  note ok = run_streets_ok [OF assms(3)]
  from ok(1) assms(5) obtain r0 r1 r2 where e: "entries ?st = [(0, r0), (1, r1), (2, r2)]"
    and g: "row_geom k r0 = LineString [a1, b1]" "row_geom k r1 = LineString [a2, b2]"
      "row_geom k r2 = LineString [a3, b3]"
    by (rule three_entries)
  have l: "length (line_points lib (LineString [a1, b1])) = 2"
    "length (line_points lib (LineString [a2, b2])) = 3"
    "length (line_points lib (LineString [a3, b3])) = 4"
    using line_points_two [OF assms(1,2), of a1 b1] line_points_two [OF assms(1,2), of a2 b2]
      line_points_two [OF assms(1,2), of a3 b3]
    by (simp_all add: assms(6-8) seg_count_values)
  have lv: "map (\<lambda>((i, j), g). i) (items (exploded nb)) = [0, 0, 1, 1, 1, 2, 2, 2, 2]"
    using level_0_items [OF sp assms(4)]
    by (simp add: e g l numeral_eq_Suc)
  then have "length (map (\<lambda>((i, j), g). i) (items (exploded nb))) = 9" by simp
  then have n: "length (items (exploded nb)) = 9" by simp
  have d: "distinct (index ?st)" using ok(1) by (rule default_index_distinct)
  have r: "length (rows_of_line 0 (exploded nb)) = 2" "length (rows_of_line 1 (exploded nb)) = 3"
    "length (rows_of_line 2 (exploded nb)) = 4"
    using rows_of_line_points [OF sp assms(4) d, of 0 r0]
      rows_of_line_points [OF sp assms(4) d, of 1 r1]
      rows_of_line_points [OF sp assms(4) d, of 2 r2]
    by (simp_all add: e g l)
  have 1: "points_per_line nb = [2, 3, 4]"
    using r by (simp add: points_per_line_def index_def e)
  have 2: "length (entries (segmentized nb)) = 9"
    by (simp add: run_segmentized(2) [OF assms(3)] n)
  have 3: "length (tl (csv nb)) = 9"
    by (simp add: c to_csv_def 2)
  have ro: "row_of ?st 0 = rows ?st ! 0" "row_of ?st 1 = rows ?st ! 1" "row_of ?st 2 = rows ?st ! 2"
    by (simp_all add: row_of_def rows_def e)
  have "map (attributes (segmentized nb)) (rows (segmentized nb))
      = map (\<lambda>i. attributes ?st (row_of ?st i)) (map (\<lambda>((i, j), g). i) (items (exploded nb)))"
    unfolding run_attribute_rows [OF assms(3)] map_map
    by (rule map_cong) auto
  then have 4: "map (attributes (segmentized nb)) (rows (segmentized nb))
           = map (\<lambda>i. attributes ?st (rows ?st ! i)) [0, 0, 1, 1, 1, 2, 2, 2, 2]"
    unfolding lv using ro by simp
  from 1 2 3 4 show ?thesis by (intro conjI)
qed

theorem three_lines_scenario_counts_witness:
  "run planar_lib example_fs True = Inr example_nb
   \<and> map (row_geom 1) (rows (nyc_streets example_nb))
       = [LineString [(0, 10), (10, 10)], LineString [(0, 20), (60, 20)], LineString [(0, 30), (120, 30)]]
   \<and> points_per_line example_nb = [2, 3, 4]
   \<and> length (entries (segmentized example_nb)) = 9
   \<and> length (tl (csv example_nb)) = 9
   \<and> map (attributes (segmentized example_nb)) (rows (segmentized example_nb))
       = [[NumV 4], [NumV 4], [NumV 6], [NumV 6], [NumV 6], [NumV 9], [NumV 9], [NumV 9], [NumV 9]]"
proof -
  have l: "lib_segmentize planar_lib = shapely_segmentize"
    "lib_unique_points planar_lib = shapely_unique_points"
    by (simp_all add: planar_lib_def)
  have k: "geometry_pos (nyc_streets example_nb) = Inr 1"
    by code_simp
  have g: "map (row_geom 1) (rows (nyc_streets example_nb))
       = [LineString [(0, 10), (10, 10)], LineString [(0, 20), (60, 20)], LineString [(0, 30), (120, 30)]]"
    by code_simp
  have d: "dist2 (0, 10) (10, 10) = 10\<^sup>2" "dist2 (0, 20) (60, 20) = 60\<^sup>2"
    "dist2 (0, 30) (120, 30) = 120\<^sup>2"
    by (simp_all add: dist2_def)
  have a: "map (\<lambda>i. attributes (nyc_streets example_nb) (rows (nyc_streets example_nb) ! i))
             [0, 0, 1, 1, 1, 2, 2, 2, 2]
       = [[NumV 4], [NumV 4], [NumV 6], [NumV 6], [NumV 6], [NumV 9], [NumV 9], [NumV 9], [NumV 9]]"
    by code_simp
  note t = three_lines_scenario_counts [OF l example_run k g d]
  from t have "map (attributes (segmentized example_nb)) (rows (segmentized example_nb))
       = [[NumV 4], [NumV 4], [NumV 6], [NumV 6], [NumV 6], [NumV 9], [NumV 9], [NumV 9], [NumV 9]]"
    unfolding a by blast
  with example_run g t show ?thesis by blast
qed

text \<open>
  Claim C5, as stated: for one and the same line, the run with the flag true and the run
  with the flag false derive the same number of points. It fails: the flag also decides
  whether the line is simplified before it is segmentized. For the bent line, loaded
  identically under both flag values, the run with the flag true derives 3 points and
  the run with the flag false derives 2.
\<close>

theorem flag_changes_point_count:
  "map_sum id (rows \<circ> loaded_streets) (run planar_lib bend_fs True)
     = map_sum id (rows \<circ> loaded_streets) (run planar_lib bend_fs False)
   \<and> map_sum id points_per_line (run planar_lib bend_fs True) = Inr [3]
   \<and> map_sum id points_per_line (run planar_lib bend_fs False) = Inr [2]"
  by code_simp

text \<open>
  Claim C5, amended. Under either flag value the same point generation is applied to the
  geometry that the line table holds at that moment: the number of points derived for a
  line is the number of unique points of the segmentized geometry, taken of the geometry
  as cell 3 loads it under that flag value when the flag is true, and of that geometry
  simplified at tolerance 10 when the flag is false.
\<close>

theorem point_count_of_line:
  assumes "run lib fs u = Inr nb" and "(i, r) \<in> set (entries (loaded_streets nb))"
  shows "load_streets lib fs u = Inr (loaded_streets nb)
       \<and> (\<exists>k. geometry_pos (loaded_streets nb) = Inr k
           \<and> length (rows_of_line i (exploded nb))
               = length (lib_unique_points lib (lib_segmentize lib 50
                   (if u then row_geom k r else lib_simplify lib 10 (row_geom k r)))))"
proof -
  from assms(1) obtain k where k: "geometry_pos (loaded_streets nb) = Inr k"
    and ks: "geometry_pos (nyc_streets nb) = Inr k"
    and e: "entries (nyc_streets nb) =
       map (\<lambda>(i, r). (i, if u then r else r[k := GeoV (lib_simplify lib 10 (row_geom k r))]))
           (entries (loaded_streets nb))"
    and len: "\<forall>(i, r) \<in> set (entries (loaded_streets nb)). k < length r"
    by (rule run_streets_geometry)
  from assms(1) have sp: "segmentize_points lib (nyc_streets nb) = Inr (exploded nb)"
    by (auto elim!: run_Inr)
  let ?r = "if u then r else r[k := GeoV (lib_simplify lib 10 (row_geom k r))]"
  from assms(2) have mem: "(i, ?r) \<in> set (entries (nyc_streets nb))"
    unfolding e by force
  have d: "distinct (index (nyc_streets nb))"
    using run_streets_ok(1) [OF assms(1)] by (rule default_index_distinct)
  from assms(2) len have "k < length r" by auto
  then have g: "row_geom k ?r = (if u then row_geom k r else lib_simplify lib 10 (row_geom k r))"
    by (simp add: row_geom_update)
  have "length (rows_of_line i (exploded nb)) = length (line_points lib (row_geom k ?r))"
    unfolding rows_of_line_points [OF sp ks d mem] by simp
  with k have "\<exists>k. geometry_pos (loaded_streets nb) = Inr k
           \<and> length (rows_of_line i (exploded nb))
               = length (lib_unique_points lib (lib_segmentize lib 50
                   (if u then row_geom k r else lib_simplify lib 10 (row_geom k r))))"
    unfolding g line_points_def by blast
  moreover from assms(1) have "load_streets lib fs u = Inr (loaded_streets nb)"
    by (auto elim!: run_Inr)
  ultimately show ?thesis by (intro conjI)
qed

theorem point_count_of_line_witness:
  "run planar_lib bend_fs False = Inr (bend_nb False)
   \<and> (0, [NumV 5, GeoV (LineString [(0, 10), (20, 14), (40, 10)])])
        \<in> set (entries (loaded_streets (bend_nb False)))
   \<and> length (rows_of_line 0 (exploded (bend_nb False))) = 2"
proof -
  let ?r = "[NumV 5, GeoV (LineString [(0, 10), (20, 14), (40, 10)])]"
  have h: "(0, ?r) \<in> set (entries (loaded_streets (bend_nb False)))"
    by code_simp
  have k: "geometry_pos (loaded_streets (bend_nb False)) = Inr 1"
    by code_simp
  have v: "length (lib_unique_points planar_lib (lib_segmentize planar_lib 50
             (lib_simplify planar_lib 10 (row_geom 1 ?r)))) = 2"
    by code_simp
  from point_count_of_line [OF bend_run h] k v
  have "length (rows_of_line 0 (exploded (bend_nb False))) = 2"
    by auto
  with bend_run h show ?thesis by (intro conjI)
qed

text \<open>
  Claim C6, as stated: under either flag value the geometry that is segmentized and
  exported is the loaded line geometry, untouched by the simplification. It fails when
  the flag is false: cell 8 then overwrites the geometry of the line table with its
  simplification. The bent line is loaded with three vertices and segmentized with two.
\<close>

theorem simplification_reaches_export:
  "map_sum id (map (cell_geom \<circ> last) \<circ> rows \<circ> loaded_streets) (run planar_lib bend_fs False)
     = Inr [LineString [(0, 10), (20, 14), (40, 10)]]
   \<and> map_sum id (map (cell_geom \<circ> last) \<circ> rows \<circ> nyc_streets) (run planar_lib bend_fs False)
     = Inr [LineString [(0, 10), (40, 10)]]"
  by code_simp

text \<open>
  Claim C6, amended. The line table that cell 10 segmentizes is the loaded table itself
  when the flag is true; when the flag is false its geometry is the loaded geometry
  simplified at tolerance 10, row by row.
\<close>

theorem simplify_feeds_export_unless_flag:
  assumes "run lib fs u = Inr nb"
  shows "\<exists>k. geometry_pos (loaded_streets nb) = Inr k
           \<and> segmentize_points lib (nyc_streets nb) = Inr (exploded nb)
           \<and> (u \<longrightarrow> nyc_streets nb = loaded_streets nb)
           \<and> map (row_geom k) (rows (nyc_streets nb))
               = map (\<lambda>r. if u then row_geom k r else lib_simplify lib 10 (row_geom k r))
                     (rows (loaded_streets nb))"
proof -
  from assms obtain k where k: "geometry_pos (loaded_streets nb) = Inr k"
    and ks: "geometry_pos (nyc_streets nb) = Inr k"
    and e: "entries (nyc_streets nb) =
       map (\<lambda>(i, r). (i, if u then r else r[k := GeoV (lib_simplify lib 10 (row_geom k r))]))
           (entries (loaded_streets nb))"
    and len: "\<forall>(i, r) \<in> set (entries (loaded_streets nb)). k < length r"
    by (rule run_streets_geometry)
  from assms have sp: "segmentize_points lib (nyc_streets nb) = Inr (exploded nb)"
    and a: "apply_simplify lib u (loaded_streets nb) = Inr (nyc_streets nb)"
    by (auto elim!: run_Inr)
  have same: "nyc_streets nb = loaded_streets nb" if u
    using a that by (simp add: apply_simplify_def)
  have "map (row_geom k) (rows (nyc_streets nb))
               = map (\<lambda>r. if u then row_geom k r else lib_simplify lib 10 (row_geom k r))
                     (rows (loaded_streets nb))"
    unfolding rows_def e map_map
    by (rule map_cong) (use len in \<open>auto simp: row_geom_update\<close>)
  with k sp same show ?thesis by blast
qed

theorem simplify_feeds_export_unless_flag_witness:
  "run planar_lib bend_fs False = Inr (bend_nb False)
   \<and> map (row_geom 1) (rows (loaded_streets (bend_nb False))) = [LineString [(0, 10), (20, 14), (40, 10)]]
   \<and> map (row_geom 1) (rows (nyc_streets (bend_nb False))) = [LineString [(0, 10), (40, 10)]]
   \<and> segmentize_points planar_lib (nyc_streets (bend_nb False)) = Inr (exploded (bend_nb False))"
proof -
  have k: "geometry_pos (loaded_streets (bend_nb False)) = Inr 1"
    by code_simp
  have l: "map (row_geom 1) (rows (loaded_streets (bend_nb False))) = [LineString [(0, 10), (20, 14), (40, 10)]]"
    by code_simp
  have s: "map (\<lambda>r. lib_simplify planar_lib 10 (row_geom 1 r)) (rows (loaded_streets (bend_nb False)))
      = [LineString [(0, 10), (40, 10)]]"
    by code_simp
  from simplify_feeds_export_unless_flag [OF bend_run [of False]] k s
  have "map (row_geom 1) (rows (nyc_streets (bend_nb False))) = [LineString [(0, 10), (40, 10)]]"
    and "segmentize_points planar_lib (nyc_streets (bend_nb False)) = Inr (exploded (bend_nb False))"
    by auto
  with bend_run [of False] l show ?thesis by (intro conjI)
qed

text \<open>
  Claim C7, at an input on which it fails. The line file is in EPSG:4326 and the boundary
  surrounds its raw coordinates, so that the crop holds the line. With the flag true,
  cell 3 reads the file without reprojection: the table that cell 10 segmentizes at
  spacing 50 is in EPSG:4326, and the points derived are the two vertices of a line of
  a hundredth of a degree. With the flag false the same file is reprojected to EPSG:2263
  at load.
\<close>

theorem flag_true_segmentizes_in_file_crs:
  "map_sum id crs (load_streets planar_lib wgs84_fs True) = Inr (Some (EPSG 4326))
   \<and> map_sum id (index \<circ> nyc_streets_crop) (run planar_lib wgs84_fs True) = Inr [0]
   \<and> map_sum id scrs
         (bnd (bnd (load_streets planar_lib wgs84_fs True) (apply_simplify planar_lib True))
              (segmentize_points planar_lib))
       = Inr (Some (EPSG 4326))
   \<and> map_sum id (map snd \<circ> items)
         (bnd (bnd (load_streets planar_lib wgs84_fs True) (apply_simplify planar_lib True))
              (segmentize_points planar_lib))
       = Inr [Point (- 7395 / 100, 4073 / 100), Point (- 7394 / 100, 4073 / 100)]
   \<and> map_sum id crs (load_streets planar_lib wgs84_fs False) = Inr (Some (EPSG 2263))"
  by code_simp

text \<open>
  Claim C8. The rows that the clip to the neighbourhood retains are rows of the exported
  table, with the same index label and the same cells: the clipped table is a subset of
  the exported one, has the same columns and no more rows, and each of its rows is a
  line of the file written.
\<close>

theorem clipped_points_subset_of_export:
  assumes "run lib fs u = Inr nb"
  shows "set (entries (segmentized_crop nb)) \<subseteq> set (entries (segmentized nb))
       \<and> length (entries (segmentized_crop nb)) \<le> length (entries (segmentized nb))
       \<and> columns (segmentized_crop nb) = columns (segmentized nb)
       \<and> (\<lambda>(i, r). digits i # map (lib_render lib) r) ` set (entries (segmentized_crop nb))
            \<subseteq> set (tl (csv nb))
       \<and> length (entries (segmentized_crop nb)) \<le> length (tl (csv nb))"
proof -
  from assms have c: "csv nb = to_csv (lib_render lib) (segmentized nb)"
    and cl: "clip lib (segmentized nb) (nta_crop nb) = Inr (segmentized_crop nb)"
    by (auto elim!: run_Inr)
  from assms obtain k where k: "geometry_pos (segmentized nb) = Inr k"
    and p: "\<forall>(i, r) \<in> set (entries (segmentized nb)). \<exists>p. row_geom k r = Point p"
    by (rule run_segmentized_points)
  from clip_points [OF cl k p] obtain P where
    cols: "columns (segmentized_crop nb) = columns (segmentized nb)" and
    e: "entries (segmentized_crop nb) = filter P (entries (segmentized nb))"
    by blast
  have tl: "tl (csv nb) = map (\<lambda>(i, r). digits i # map (lib_render lib) r) (entries (segmentized nb))"
    by (simp add: c to_csv_def)
  have "set (filter P (entries (segmentized nb))) \<subseteq> set (entries (segmentized nb))"
    by (rule filter_is_subset)
  moreover have "length (filter P (entries (segmentized nb))) \<le> length (entries (segmentized nb))"
    by (rule length_filter_le)
  moreover have "(\<lambda>(i, r). digits i # map (lib_render lib) r) ` set (filter P (entries (segmentized nb)))
            \<subseteq> set (map (\<lambda>(i, r). digits i # map (lib_render lib) r) (entries (segmentized nb)))"
    unfolding set_map by (rule image_mono) (rule filter_is_subset)
  moreover have "length (filter P (entries (segmentized nb)))
      \<le> length (map (\<lambda>(i, r). digits i # map (lib_render lib) r) (entries (segmentized nb)))"
    unfolding length_map by (rule length_filter_le)
  ultimately show ?thesis
    unfolding tl e using cols by (intro conjI)
qed

theorem clipped_points_subset_of_export_witness:
  "run planar_lib example_fs True = Inr example_nb
   \<and> set (entries (segmentized_crop example_nb)) \<subseteq> set (entries (segmentized example_nb))
   \<and> length (entries (segmentized_crop example_nb)) = 8
   \<and> length (tl (csv example_nb)) = 9"
proof -
  have c: "length (entries (segmentized_crop example_nb)) = 8" by code_simp
  have n: "length (tl (csv example_nb)) = 9" by code_simp
  from clipped_points_subset_of_export [OF example_run] example_run c n show ?thesis
    by (intro conjI) simp_all
qed

text \<open>
  Claim C9. The rejoin is the inner join of the back-reference \<open>level_0\<close> of each
  exploded point row with the row index of the line table. When the line table carries
  the default index \<open>0..n-1\<close>, every exploded point row matches exactly one line
  row, and the rejoined table has exactly as many rows as the exploded point set, each
  point row once and in order: no point row is dropped or duplicated.
\<close>

theorem rejoin_keeps_every_point_row:
  assumes "index streets = [0..<length (entries streets)]"
    and "segmentize_points lib streets = Inr pts"
    and "rejoin (reset_index pts) streets = Inr t"
  shows "(\<forall>(n, lr) \<in> set (entries (reset_index pts)).
            length (filter (\<lambda>(ri, rr). cell_at lr 0 = IntV (int ri)) (entries streets)) = 1)
         \<and> length (entries t) = length (items pts)
         \<and> index t = [0..<length (items pts)]"
proof -
  have d: "distinct (index streets)" using assms(1) by simp
  have p: "\<forall>((i, j), g) \<in> set (items pts). i \<in> set (index streets)"
    using segmentize_points_parent(1) [OF assms(2)] by auto
  have one: "length (filter (\<lambda>(ri, rr). cell_at lr 0 = IntV (int ri)) (entries streets)) = 1"
    if "(n, lr) \<in> set (entries (reset_index pts))" for n lr
  proof -
    from that obtain i j g where ij: "((i, j), g) \<in> set (items pts)"
      and lr: "lr = [IntV (int i), IntV (int j), GeoV g]"
      by (auto simp: reset_index_def dest!: set_zip_rightD)
    from p ij obtain r where r: "(i, r) \<in> set (entries streets)"
      by (auto simp: index_def)
    have "(\<lambda>(ri, rr). cell_at lr 0 = IntV (int ri)) = (\<lambda>(ri, rr :: cell list). ri = i)"
      by (auto simp: lr cell_at_def fun_eq_iff)
    with filter_unique_key [of "entries streets" i r] d r show ?thesis
      by (simp add: index_def)
  qed
  from assms(3) obtain m where m: "merge (reset_index pts) streets (Name ''level_0'') = Inr m"
    and tm: "index t = index m" by (rule rejoin_index)
  from m merge_reset_index [OF d p] have "index m = [0..<length (items pts)]"
    by (auto simp: index_def comp_def case_prod_unfold map_fst_zip)
  with tm have i: "index t = [0..<length (items pts)]" by simp
  then have "length (index t) = length (items pts)" by simp
  then have "length (entries t) = length (items pts)" by (simp add: index_def)
  with one i show ?thesis by blast
qed

theorem rejoin_keeps_every_point_row_witness:
  "index (nyc_streets example_nb) = [0..<length (entries (nyc_streets example_nb))]
   \<and> segmentize_points planar_lib (nyc_streets example_nb) = Inr (exploded example_nb)
   \<and> length (entries (projr (rejoin (reset_index (exploded example_nb)) (nyc_streets example_nb)))) = 9
   \<and> index (projr (rejoin (reset_index (exploded example_nb)) (nyc_streets example_nb))) = [0..<9]"
proof -
  have h1: "index (nyc_streets example_nb) = [0..<length (entries (nyc_streets example_nb))]"
    by code_simp
  have h2: "segmentize_points planar_lib (nyc_streets example_nb) = Inr (exploded example_nb)"
    by code_simp
  have "\<not> isl (rejoin (reset_index (exploded example_nb)) (nyc_streets example_nb))"
    by code_simp
  then have h3: "rejoin (reset_index (exploded example_nb)) (nyc_streets example_nb)
      = Inr (projr (rejoin (reset_index (exploded example_nb)) (nyc_streets example_nb)))"
    by simp
  have n: "length (items (exploded example_nb)) = 9"
    by code_simp
  from rejoin_keeps_every_point_row [OF h1 h2 h3] h1 h2 show ?thesis
    by (simp add: n)
qed

text \<open>
  Claim C10. The reference system of the boundary table is assigned, not transformed:
  after the load cell the table has the columns and the rows of the file as read,
  whatever reference system the file declares, and it is tagged EPSG:2263.
\<close>

theorem ntas_crs_assigned_not_transformed:
  assumes "run lib fs u = Inr nb"
  shows "\<exists>fl. fs ''../data/nynta2020_24b/nynta2020.shp'' = Some fl
           \<and> crs (nyc_ntas nb) = Some (EPSG 2263)
           \<and> columns (nyc_ntas nb) = map Name (field_names fl) @ [Name ''geometry'']
           \<and> rows (nyc_ntas nb) = map (feature_row (field_names fl)) (features fl)"
proof -
  from assms have "load_ntas fs = Inr (nyc_ntas nb)"
    by (auto elim!: run_Inr)
  then obtain f where f: "read_file fs ''../data/nynta2020_24b/nynta2020.shp'' = Inr f"
    and n: "nyc_ntas nb = f\<lparr>crs := Some target_crs\<rparr>"
    by (auto simp: load_ntas_def bnd_Inr_iff)
  from f show ?thesis
    by (rule read_file_Inr) (simp add: n rows_def target_crs_def)
qed

theorem ntas_crs_assigned_not_transformed_witness:
  "run planar_lib example_fs True = Inr example_nb
   \<and> file_crs ntas_file = None
   \<and> crs (nyc_ntas example_nb) = Some (EPSG 2263)
   \<and> rows (nyc_ntas example_nb) = map (feature_row (field_names ntas_file)) (features ntas_file)"
  using ntas_crs_assigned_not_transformed [OF example_run] example_run
  by (simp add: example_fs_def) (simp add: ntas_file_def)

end
